theory Spec2Isabelle
  imports Main
begin

section \<open>Data model\<close>

text \<open>
  The program is a Python Sudoku game (\<^verbatim>\<open>src/main.py\<close>). The part modelled here is the
  constraint check \<^verbatim>\<open>valid\<close>, the scan \<^verbatim>\<open>find_empty\<close>, the backtracking method
  \<^verbatim>\<open>Grid.solve\<close> and the placement method \<^verbatim>\<open>Grid.place\<close> with the helpers they call
  (\<^verbatim>\<open>Grid.update_model\<close>, \<^verbatim>\<open>Cube.set\<close>, \<^verbatim>\<open>Cube.set_temp\<close>).

  Python raises \<^verbatim>\<open>IndexError\<close> on a list index that is out of range and \<^verbatim>\<open>TypeError\<close>
  when \<^verbatim>\<open>None\<close> is unpacked into a pair. Both are values of \<open>error\<close>; a computation that
  can raise returns \<open>error + 'a\<close>. All indices of the program come from \<^verbatim>\<open>range\<close>, from
  \<^verbatim>\<open>find_empty\<close> or from a mouse click inside the window, so they are natural numbers.
\<close>

datatype error = IndexError | TypeError

type_synonym board = "int list list"

text \<open>\<^verbatim>\<open>xs[i]\<close>, \<^verbatim>\<open>bo[i][j]\<close> and the assignment \<^verbatim>\<open>bo[i][j] = v\<close>.\<close>

definition getitem :: "'a list \<Rightarrow> nat \<Rightarrow> error + 'a" where
  "getitem xs i = (if i < length xs then Inr (xs ! i) else Inl IndexError)"

definition getitem2 :: "'a list list \<Rightarrow> nat \<Rightarrow> nat \<Rightarrow> error + 'a" where
  "getitem2 bo i j = (case getitem bo i of Inl e \<Rightarrow> Inl e | Inr r \<Rightarrow> getitem r j)"

definition setitem2 :: "'a list list \<Rightarrow> nat \<Rightarrow> nat \<Rightarrow> 'a \<Rightarrow> error + 'a list list" where
  "setitem2 bo i j v =
     (case getitem bo i of
        Inl e \<Rightarrow> Inl e
      | Inr r \<Rightarrow> if j < length r then Inr (bo[i := r[j := v]]) else Inl IndexError)"

section \<open>find_empty\<close>

text \<open>
  \<^verbatim>\<open>
  def find_empty(bo):
      for i in range(len(bo)):
          for j in range(len(bo[0])):
              if bo[i][j] == 0:
                  return (i, j)  # row, col
      return None
  \<close>
  The inner loop is \<open>find_empty_cols\<close>, the outer loop \<open>find_empty_rows\<close>; each runs over
  the list of indices that is left.
\<close>

fun find_empty_cols :: "board \<Rightarrow> nat \<Rightarrow> nat list \<Rightarrow> error + (nat \<times> nat) option" where
  "find_empty_cols bo i [] = Inr None"
| "find_empty_cols bo i (j # js) =
     (case getitem2 bo i j of
        Inl e \<Rightarrow> Inl e
      | Inr v \<Rightarrow> if v = 0 then Inr (Some (i, j)) else find_empty_cols bo i js)"

fun find_empty_rows :: "board \<Rightarrow> nat list \<Rightarrow> error + (nat \<times> nat) option" where
  "find_empty_rows bo [] = Inr None"
| "find_empty_rows bo (i # is) =
     (case getitem bo 0 of
        Inl e \<Rightarrow> Inl e
      | Inr r0 \<Rightarrow>
          (case find_empty_cols bo i [0..<length r0] of
             Inl e \<Rightarrow> Inl e
           | Inr (Some p) \<Rightarrow> Inr (Some p)
           | Inr None \<Rightarrow> find_empty_rows bo is))"

definition find_empty :: "board \<Rightarrow> error + (nat \<times> nat) option" where
  "find_empty bo = find_empty_rows bo [0..<length bo]"

section \<open>valid\<close>

text \<open>
  \<^verbatim>\<open>
  def valid(bo, num, pos):
      for i in range(len(bo[0])):
          if bo[pos[0]][i] == num and pos[1] != i:
              return False
      for i in range(len(bo)):
          if bo[i][pos[1]] == num and pos[0] != i:
              return False
      box_x = pos[1] // 3
      box_y = pos[0] // 3
      for i in range(box_y * 3, box_y * 3 + 3):
          for j in range(box_x * 3, box_x * 3 + 3):
              if bo[i][j] == num and (i, j) != pos:
                  return False
      return True
  \<close>
  Each loop function returns \<open>Inr False\<close> where the source returns \<^verbatim>\<open>False\<close> from inside the
  loop, and \<open>Inr True\<close> where the loop runs to its end.
\<close>

fun valid_row :: "board \<Rightarrow> int \<Rightarrow> nat \<times> nat \<Rightarrow> nat list \<Rightarrow> error + bool" where
  "valid_row bo num pos [] = Inr True"
| "valid_row bo num pos (i # is) =
     (case getitem2 bo (fst pos) i of
        Inl e \<Rightarrow> Inl e
      | Inr v \<Rightarrow> if v = num \<and> snd pos \<noteq> i then Inr False else valid_row bo num pos is)"

fun valid_col :: "board \<Rightarrow> int \<Rightarrow> nat \<times> nat \<Rightarrow> nat list \<Rightarrow> error + bool" where
  "valid_col bo num pos [] = Inr True"
| "valid_col bo num pos (i # is) =
     (case getitem2 bo i (snd pos) of
        Inl e \<Rightarrow> Inl e
      | Inr v \<Rightarrow> if v = num \<and> fst pos \<noteq> i then Inr False else valid_col bo num pos is)"

fun valid_box_cols :: "board \<Rightarrow> int \<Rightarrow> nat \<times> nat \<Rightarrow> nat \<Rightarrow> nat list \<Rightarrow> error + bool" where
  "valid_box_cols bo num pos i [] = Inr True"
| "valid_box_cols bo num pos i (j # js) =
     (case getitem2 bo i j of
        Inl e \<Rightarrow> Inl e
      | Inr v \<Rightarrow> if v = num \<and> (i, j) \<noteq> pos then Inr False else valid_box_cols bo num pos i js)"

fun valid_box :: "board \<Rightarrow> int \<Rightarrow> nat \<times> nat \<Rightarrow> nat list \<Rightarrow> nat list \<Rightarrow> error + bool" where
  "valid_box bo num pos [] js = Inr True"
| "valid_box bo num pos (i # is) js =
     (case valid_box_cols bo num pos i js of
        Inl e \<Rightarrow> Inl e
      | Inr ok \<Rightarrow> if ok then valid_box bo num pos is js else Inr False)"

definition valid :: "board \<Rightarrow> int \<Rightarrow> nat \<times> nat \<Rightarrow> error + bool" where
  "valid bo num pos =
     (case getitem bo 0 of
        Inl e \<Rightarrow> Inl e
      | Inr r0 \<Rightarrow>
          (case valid_row bo num pos [0..<length r0] of
             Inl e \<Rightarrow> Inl e
           | Inr ok_row \<Rightarrow>
               if \<not> ok_row then Inr False
               else
                 (case valid_col bo num pos [0..<length bo] of
                    Inl e \<Rightarrow> Inl e
                  | Inr ok_col \<Rightarrow>
                      if \<not> ok_col then Inr False
                      else
                        (let box_x = snd pos div 3;
                             box_y = fst pos div 3
                         in valid_box bo num pos
                              [box_y * 3..<box_y * 3 + 3] [box_x * 3..<box_x * 3 + 3]))))"

section \<open>Grid.solve\<close>

text \<open>
  \<^verbatim>\<open>
  def solve(self):
      find = find_empty(self.model)
      if not find:
          return True
      else:
          row, col = find
      for i in range(1, 10):
          if valid(self.model, i, (row, col)):
              self.model[row][col] = i
              if self.solve():
                  return True
              self.model[row][col] = 0
      return False
  \<close>
  The method reads and writes only \<^verbatim>\<open>self.model\<close>, a list of lists that
  \<^verbatim>\<open>update_model\<close> builds afresh, so no two rows are the same object and the matrix is passed
  and returned as a value. The result is the returned boolean with the matrix as the call left
  it.

  The recursion is bounded by fuel: one unit for each nested call of \<^verbatim>\<open>solve\<close>; \<open>None\<close> means
  that the fuel ran out. \<open>solve_digits\<close> is the \<^verbatim>\<open>for\<close> loop over the digits that are left,
  with the recursive call as its first argument.
\<close>

type_synonym solve_result = "(error + bool \<times> board) option"

fun solve_digits ::
  "(board \<Rightarrow> solve_result) \<Rightarrow> board \<Rightarrow> nat \<Rightarrow> nat \<Rightarrow> int list \<Rightarrow> solve_result" where
  "solve_digits rec bo row col [] = Some (Inr (False, bo))"
| "solve_digits rec bo row col (i # is) =
     (case valid bo i (row, col) of
        Inl e \<Rightarrow> Some (Inl e)
      | Inr ok \<Rightarrow>
          if ok then
            (case setitem2 bo row col i of
               Inl e \<Rightarrow> Some (Inl e)
             | Inr bo1 \<Rightarrow>
                 (case rec bo1 of
                    None \<Rightarrow> None
                  | Some (Inl e) \<Rightarrow> Some (Inl e)
                  | Some (Inr (solved, bo2)) \<Rightarrow>
                      if solved then Some (Inr (True, bo2))
                      else
                        (case setitem2 bo2 row col 0 of
                           Inl e \<Rightarrow> Some (Inl e)
                         | Inr bo3 \<Rightarrow> solve_digits rec bo3 row col is)))
          else solve_digits rec bo row col is)"

primrec solve :: "nat \<Rightarrow> board \<Rightarrow> solve_result" where
  "solve 0 bo = None"
| "solve (Suc n) bo =
     (case find_empty bo of
        Inl e \<Rightarrow> Some (Inl e)
      | Inr None \<Rightarrow> Some (Inr (True, bo))
      | Inr (Some (row, col)) \<Rightarrow> solve_digits (solve n) bo row col [1..9])"

section \<open>Cube and Grid, Grid.update_model, Grid.place\<close>

text \<open>
  A \<^verbatim>\<open>Cube\<close> is one cell of the display: its committed \<^verbatim>\<open>value\<close>, the pencil mark
  \<^verbatim>\<open>temp\<close>, its coordinates and size and the selection flag. Of a \<^verbatim>\<open>Grid\<close> the fields
  that \<^verbatim>\<open>place\<close> and \<^verbatim>\<open>solve\<close> use are kept: \<^verbatim>\<open>rows\<close>, \<^verbatim>\<open>cols\<close>, the cubes, the
  matrix \<^verbatim>\<open>model\<close> and the selected position (\<^verbatim>\<open>None\<close> when nothing is selected). The
  window, the buttons and the generator's board are rendering and input state. Every cube is
  created by its own constructor call, so no two cells are the same object.
\<close>

record cube =
  cube_value :: int
  cube_temp :: int
  cube_row :: nat
  cube_col :: nat
  cube_width :: int
  cube_height :: int
  cube_selected :: bool

record grid =
  grid_rows :: nat
  grid_cols :: nat
  grid_cubes :: "cube list list"
  grid_model :: board
  grid_selected :: "(nat \<times> nat) option"

text \<open>\<^verbatim>\<open>Cube.set\<close> and \<^verbatim>\<open>Cube.set_temp\<close>.\<close>

definition cube_set :: "int \<Rightarrow> cube \<Rightarrow> cube" where
  "cube_set val c = c\<lparr>cube_value := val\<rparr>"

definition set_temp :: "int \<Rightarrow> cube \<Rightarrow> cube" where
  "set_temp val c = c\<lparr>cube_temp := val\<rparr>"

text \<open>A method call \<^verbatim>\<open>self.cubes[row][col].f(...)\<close>: the cube is looked up and updated in place.\<close>

definition on_cube :: "(cube \<Rightarrow> cube) \<Rightarrow> nat \<Rightarrow> nat \<Rightarrow> grid \<Rightarrow> error + grid" where
  "on_cube f row col g =
     (case getitem2 (grid_cubes g) row col of
        Inl e \<Rightarrow> Inl e
      | Inr c \<Rightarrow>
          (case setitem2 (grid_cubes g) row col (f c) of
             Inl e \<Rightarrow> Inl e
           | Inr cs \<Rightarrow> Inr (g\<lparr>grid_cubes := cs\<rparr>)))"

text \<open>
  \<^verbatim>\<open>
  def update_model(self):
      self.model = [[self.cubes[i][j].value for j in range(self.cols)] for i in range(self.rows)]
  \<close>
\<close>

fun model_row :: "cube list list \<Rightarrow> nat \<Rightarrow> nat list \<Rightarrow> error + int list" where
  "model_row cs i [] = Inr []"
| "model_row cs i (j # js) =
     (case getitem2 cs i j of
        Inl e \<Rightarrow> Inl e
      | Inr c \<Rightarrow>
          (case model_row cs i js of
             Inl e \<Rightarrow> Inl e
           | Inr vs \<Rightarrow> Inr (cube_value c # vs)))"

fun model_rows :: "cube list list \<Rightarrow> nat list \<Rightarrow> nat list \<Rightarrow> error + board" where
  "model_rows cs [] js = Inr []"
| "model_rows cs (i # is) js =
     (case model_row cs i js of
        Inl e \<Rightarrow> Inl e
      | Inr r \<Rightarrow>
          (case model_rows cs is js of
             Inl e \<Rightarrow> Inl e
           | Inr rs \<Rightarrow> Inr (r # rs)))"

definition update_model :: "grid \<Rightarrow> error + grid" where
  "update_model g =
     (case model_rows (grid_cubes g) [0..<grid_rows g] [0..<grid_cols g] of
        Inl e \<Rightarrow> Inl e
      | Inr m \<Rightarrow> Inr (g\<lparr>grid_model := m\<rparr>))"

text \<open>
  \<^verbatim>\<open>
  def place(self, val):
      row, col = self.selected
      if self.cubes[row][col].value == 0:
          self.cubes[row][col].set(val)
          self.update_model()
          if valid(self.model, val, (row, col)) and self.solve():
              return True
          else:
              self.cubes[row][col].set(0)
              self.cubes[row][col].set_temp(0)
              self.update_model()
              return False
  \<close>
  The method returns \<^verbatim>\<open>True\<close>, \<^verbatim>\<open>False\<close> or, when the selected cube is filled, falls off
  its end and returns \<^verbatim>\<open>None\<close>: the result is a \<open>bool option\<close> with the grid as the call left
  it. \<open>place_else\<close> is the \<^verbatim>\<open>else\<close> branch, taken when \<^verbatim>\<open>valid\<close> is false and when
  \<^verbatim>\<open>solve\<close> is false; \<^verbatim>\<open>and\<close> calls \<^verbatim>\<open>solve\<close> only after \<^verbatim>\<open>valid\<close> returned true. The
  fuel is that of the call of \<^verbatim>\<open>solve\<close>.
\<close>

definition place_else :: "nat \<Rightarrow> nat \<Rightarrow> grid \<Rightarrow> error + bool option \<times> grid" where
  "place_else row col g =
     (case on_cube (cube_set 0) row col g of
        Inl e \<Rightarrow> Inl e
      | Inr g1 \<Rightarrow>
          (case on_cube (set_temp 0) row col g1 of
             Inl e \<Rightarrow> Inl e
           | Inr g2 \<Rightarrow>
               (case update_model g2 of
                  Inl e \<Rightarrow> Inl e
                | Inr g3 \<Rightarrow> Inr (Some False, g3))))"

definition place :: "nat \<Rightarrow> grid \<Rightarrow> int \<Rightarrow> (error + bool option \<times> grid) option" where
  "place fuel g val =
     (case grid_selected g of
        None \<Rightarrow> Some (Inl TypeError)
      | Some (row, col) \<Rightarrow>
          (case getitem2 (grid_cubes g) row col of
             Inl e \<Rightarrow> Some (Inl e)
           | Inr c \<Rightarrow>
               if cube_value c = 0 then
                 (case on_cube (cube_set val) row col g of
                    Inl e \<Rightarrow> Some (Inl e)
                  | Inr g1 \<Rightarrow>
                      (case update_model g1 of
                         Inl e \<Rightarrow> Some (Inl e)
                       | Inr g2 \<Rightarrow>
                           (case valid (grid_model g2) val (row, col) of
                              Inl e \<Rightarrow> Some (Inl e)
                            | Inr ok \<Rightarrow>
                                if ok then
                                  (case solve fuel (grid_model g2) of
                                     None \<Rightarrow> None
                                   | Some (Inl e) \<Rightarrow> Some (Inl e)
                                   | Some (Inr (solved, m)) \<Rightarrow>
                                       if solved then Some (Inr (Some True, g2\<lparr>grid_model := m\<rparr>))
                                       else Some (place_else row col (g2\<lparr>grid_model := m\<rparr>)))
                                else Some (place_else row col g2))))
               else Some (Inr (None, g))))"

section \<open>Specification vocabulary\<close>

text \<open>
  A board of the game is nine rows of nine cells. Two positions share a unit when they lie
  in the same row, the same column or the same 3x3 box.
\<close>

definition wf9 :: "board \<Rightarrow> bool" where
  "wf9 bo \<longleftrightarrow> length bo = 9 \<and> (\<forall>r\<in>set bo. length r = 9)"

definition cells9 :: "(nat \<times> nat) list" where
  "cells9 = List.product [0..<9] [0..<9]"

definition cell_at :: "board \<Rightarrow> nat \<times> nat \<Rightarrow> int" where
  "cell_at bo p = bo ! fst p ! snd p"

definition same_unit :: "nat \<times> nat \<Rightarrow> nat \<times> nat \<Rightarrow> bool" where
  "same_unit p q \<longleftrightarrow>
     fst p = fst q \<or> snd p = snd q \<or> (fst p div 3 = fst q div 3 \<and> snd p div 3 = snd q div 3)"

text \<open>
  The contract of the constraint check in the spec's words: the digit already occurs
  elsewhere in the position's row, column or containing box.
\<close>

definition occurs_elsewhere :: "board \<Rightarrow> int \<Rightarrow> nat \<times> nat \<Rightarrow> bool" where
  "occurs_elsewhere bo digit pos \<longleftrightarrow>
     (\<exists>p\<in>set cells9. p \<noteq> pos \<and> same_unit p pos \<and> cell_at bo p = digit)"

text \<open>The number of empty cells of a board.\<close>

definition empties :: "board \<Rightarrow> nat" where
  "empties bo = sum_list (map (\<lambda>r. count_list r 0) bo)"

text \<open>
  The givens of a board conflict when two different cells of one unit hold the same nonzero
  value. A solution is a full board of digits 1 to 9 with no value twice in a unit; a
  completion of a board is a solution that keeps every nonzero cell of the board.
\<close>

definition conflicting_givens :: "board \<Rightarrow> bool" where
  "conflicting_givens bo \<longleftrightarrow>
     (\<exists>p\<in>set cells9. \<exists>q\<in>set cells9.
        p \<noteq> q \<and> same_unit p q \<and> cell_at bo p \<noteq> 0 \<and> cell_at bo p = cell_at bo q)"

definition solution :: "board \<Rightarrow> bool" where
  "solution s \<longleftrightarrow>
     wf9 s \<and> (\<forall>p\<in>set cells9. 1 \<le> cell_at s p \<and> cell_at s p \<le> 9) \<and>
     (\<forall>p\<in>set cells9. \<forall>q\<in>set cells9. p \<noteq> q \<and> same_unit p q \<longrightarrow> cell_at s p \<noteq> cell_at s q)"

definition completion :: "board \<Rightarrow> board \<Rightarrow> bool" where
  "completion bo s \<longleftrightarrow>
     solution s \<and> (\<forall>p\<in>set cells9. cell_at bo p \<noteq> 0 \<longrightarrow> cell_at s p = cell_at bo p)"

text \<open>
  One board keeps the givens of another: the same shape, and every nonzero cell of the first
  has its value in the second.
\<close>

definition keeps_givens :: "board \<Rightarrow> board \<Rightarrow> bool" where
  "keeps_givens bo bo' \<longleftrightarrow>
     map length bo' = map length bo \<and>
     (\<forall>i<length bo. \<forall>j<length (bo ! i). bo ! i ! j \<noteq> 0 \<longrightarrow> bo' ! i ! j = bo ! i ! j)"

text \<open>
  The state the search keeps while it runs on a board that has a completion: a 9x9 board of
  values 0 to 9 whose givens do not conflict.
\<close>

definition cells_in_range :: "board \<Rightarrow> bool" where
  "cells_in_range bo \<longleftrightarrow> (\<forall>p\<in>set cells9. 0 \<le> cell_at bo p \<and> cell_at bo p \<le> 9)"

definition sound_board :: "board \<Rightarrow> bool" where
  "sound_board bo \<longleftrightarrow> wf9 bo \<and> \<not> conflicting_givens bo \<and> cells_in_range bo"

text \<open>The matrix of the cubes' values, as \<^verbatim>\<open>update_model\<close> reads it.\<close>

definition cube_values :: "grid \<Rightarrow> board" where
  "cube_values g =
     map (\<lambda>i. map (\<lambda>j. cube_value (grid_cubes g ! i ! j)) [0..<grid_cols g]) [0..<grid_rows g]"

section \<open>Example boards\<close>

text \<open>A solved board, and the same board with its first and last cell emptied.\<close>

definition solved_board :: board where
  "solved_board =
    [[5, 3, 4, 6, 7, 8, 9, 1, 2],
     [6, 7, 2, 1, 9, 5, 3, 4, 8],
     [1, 9, 8, 3, 4, 2, 5, 6, 7],
     [8, 5, 9, 7, 6, 1, 4, 2, 3],
     [4, 2, 6, 8, 5, 3, 7, 9, 1],
     [7, 1, 3, 9, 2, 4, 8, 5, 6],
     [9, 6, 1, 5, 3, 7, 2, 8, 4],
     [2, 8, 7, 4, 1, 9, 6, 3, 5],
     [3, 4, 5, 2, 8, 6, 1, 7, 9]]"

definition two_empty_board :: board where
  "two_empty_board =
    [[0, 3, 4, 6, 7, 8, 9, 1, 2],
     [6, 7, 2, 1, 9, 5, 3, 4, 8],
     [1, 9, 8, 3, 4, 2, 5, 6, 7],
     [8, 5, 9, 7, 6, 1, 4, 2, 3],
     [4, 2, 6, 8, 5, 3, 7, 9, 1],
     [7, 1, 3, 9, 2, 4, 8, 5, 6],
     [9, 6, 1, 5, 3, 7, 2, 8, 4],
     [2, 8, 7, 4, 1, 9, 6, 3, 5],
     [3, 4, 5, 2, 8, 6, 1, 7, 0]]"

text \<open>The spec's scenario: the digit 4 at (0,0) and at (1,1) of one box, every other cell empty.\<close>

definition box_pair_board :: board where
  "box_pair_board =
    [[4, 0, 0, 0, 0, 0, 0, 0, 0],
     [0, 4, 0, 0, 0, 0, 0, 0, 0],
     [0, 0, 0, 0, 0, 0, 0, 0, 0],
     [0, 0, 0, 0, 0, 0, 0, 0, 0],
     [0, 0, 0, 0, 0, 0, 0, 0, 0],
     [0, 0, 0, 0, 0, 0, 0, 0, 0],
     [0, 0, 0, 0, 0, 0, 0, 0, 0],
     [0, 0, 0, 0, 0, 0, 0, 0, 0],
     [0, 0, 0, 0, 0, 0, 0, 0, 0]]"

text \<open>
  The solved board with its first and last cell emptied and the 3 at (7,7) replaced by 9: the
  first cell takes a 5, after which no digit fits the last cell.
\<close>

definition dead_end_board :: board where
  "dead_end_board =
    [[0, 3, 4, 6, 7, 8, 9, 1, 2],
     [6, 7, 2, 1, 9, 5, 3, 4, 8],
     [1, 9, 8, 3, 4, 2, 5, 6, 7],
     [8, 5, 9, 7, 6, 1, 4, 2, 3],
     [4, 2, 6, 8, 5, 3, 7, 9, 1],
     [7, 1, 3, 9, 2, 4, 8, 5, 6],
     [9, 6, 1, 5, 3, 7, 2, 8, 4],
     [2, 8, 7, 4, 1, 9, 6, 9, 5],
     [3, 4, 5, 2, 8, 6, 1, 7, 0]]"

text \<open>The spec's scenario: the solved board with the cell (0,0) emptied.\<close>

definition one_empty_board :: board where
  "one_empty_board =
    [[0, 3, 4, 6, 7, 8, 9, 1, 2],
     [6, 7, 2, 1, 9, 5, 3, 4, 8],
     [1, 9, 8, 3, 4, 2, 5, 6, 7],
     [8, 5, 9, 7, 6, 1, 4, 2, 3],
     [4, 2, 6, 8, 5, 3, 7, 9, 1],
     [7, 1, 3, 9, 2, 4, 8, 5, 6],
     [9, 6, 1, 5, 3, 7, 2, 8, 4],
     [2, 8, 7, 4, 1, 9, 6, 3, 5],
     [3, 4, 5, 2, 8, 6, 1, 7, 9]]"

text \<open>
  The solved board with the 3 at (0,1) replaced by a second 5 in the first row, and the last
  cell emptied; and the same board after the search has filled the last cell.
\<close>

definition conflict_board :: board where
  "conflict_board =
    [[5, 5, 4, 6, 7, 8, 9, 1, 2],
     [6, 7, 2, 1, 9, 5, 3, 4, 8],
     [1, 9, 8, 3, 4, 2, 5, 6, 7],
     [8, 5, 9, 7, 6, 1, 4, 2, 3],
     [4, 2, 6, 8, 5, 3, 7, 9, 1],
     [7, 1, 3, 9, 2, 4, 8, 5, 6],
     [9, 6, 1, 5, 3, 7, 2, 8, 4],
     [2, 8, 7, 4, 1, 9, 6, 3, 5],
     [3, 4, 5, 2, 8, 6, 1, 7, 0]]"

definition conflict_board_filled :: board where
  "conflict_board_filled =
    [[5, 5, 4, 6, 7, 8, 9, 1, 2],
     [6, 7, 2, 1, 9, 5, 3, 4, 8],
     [1, 9, 8, 3, 4, 2, 5, 6, 7],
     [8, 5, 9, 7, 6, 1, 4, 2, 3],
     [4, 2, 6, 8, 5, 3, 7, 9, 1],
     [7, 1, 3, 9, 2, 4, 8, 5, 6],
     [9, 6, 1, 5, 3, 7, 2, 8, 4],
     [2, 8, 7, 4, 1, 9, 6, 3, 5],
     [3, 4, 5, 2, 8, 6, 1, 7, 9]]"

section \<open>Example grids\<close>

text \<open>
  The game's grids. \<open>new_cube\<close> is \<^verbatim>\<open>Cube.__init__\<close>, \<open>board_cubes\<close> the cubes that
  \<^verbatim>\<open>generate_board\<close> makes of a board, 540 wide and high. \<open>picked_grid b row col t\<close> is the
  grid after a new puzzle \<open>b\<close>, the selection of the cell at \<open>(row, col)\<close> and the pencil
  mark \<open>t\<close> sketched into it. \<open>committed_grid\<close> is \<open>picked_grid two_empty_board 0 0 5\<close> with
  the value 5 in the first cube and the solved board as its matrix.
\<close>

definition new_cube :: "int \<Rightarrow> nat \<Rightarrow> nat \<Rightarrow> int \<Rightarrow> int \<Rightarrow> cube" where
  "new_cube v row col width height =
     \<lparr>cube_value = v, cube_temp = 0, cube_row = row, cube_col = col,
      cube_width = width, cube_height = height, cube_selected = False\<rparr>"

definition board_cubes :: "board \<Rightarrow> cube list list" where
  "board_cubes b = map (\<lambda>i. map (\<lambda>j. new_cube (b ! i ! j) i j 540 540) [0..<9]) [0..<9]"

definition picked_grid :: "board \<Rightarrow> nat \<Rightarrow> nat \<Rightarrow> int \<Rightarrow> grid" where
  "picked_grid b row col t =
     \<lparr>grid_rows = 9, grid_cols = 9,
      grid_cubes = (board_cubes b)
        [row := (board_cubes b ! row)
           [col := (board_cubes b ! row ! col)\<lparr>cube_temp := t, cube_selected := True\<rparr>]],
      grid_model = b, grid_selected = Some (row, col)\<rparr>"

definition committed_grid :: grid where
  "committed_grid =
     (picked_grid two_empty_board 0 0 5)
       \<lparr>grid_cubes := (grid_cubes (picked_grid two_empty_board 0 0 5))
          [0 := (grid_cubes (picked_grid two_empty_board 0 0 5) ! 0)
             [0 := cube_set 5 (grid_cubes (picked_grid two_empty_board 0 0 5) ! 0 ! 0)]],
        grid_model := solved_board\<rparr>"

section \<open>The constraint check\<close>

lemma getitem_Inr: "i < length xs \<Longrightarrow> getitem xs i = Inr (xs ! i)"
  by (simp add: getitem_def)

lemma getitem2_Inr:
  "i < length bo \<Longrightarrow> j < length (bo ! i) \<Longrightarrow> getitem2 bo i j = Inr (bo ! i ! j)"
  by (simp add: getitem2_def getitem_def)

lemma valid_row_eq:
  "r < length bo \<Longrightarrow> \<forall>j\<in>set js. j < length (bo ! r) \<Longrightarrow>
   valid_row bo num (r, c) js = Inr (\<forall>j\<in>set js. bo ! r ! j = num \<longrightarrow> j = c)"
  by (induction js) (auto simp: getitem2_Inr)

lemma valid_col_eq:
  "\<forall>i\<in>set is. i < length bo \<and> c < length (bo ! i) \<Longrightarrow>
   valid_col bo num (r, c) is = Inr (\<forall>i\<in>set is. bo ! i ! c = num \<longrightarrow> i = r)"
  by (induction "is") (auto simp: getitem2_Inr)

lemma valid_box_cols_eq:
  "i < length bo \<Longrightarrow> \<forall>j\<in>set js. j < length (bo ! i) \<Longrightarrow>
   valid_box_cols bo num pos i js = Inr (\<forall>j\<in>set js. bo ! i ! j = num \<longrightarrow> (i, j) = pos)"
  by (induction js) (auto simp: getitem2_Inr)

lemma valid_box_eq:
  "\<forall>i\<in>set is. i < length bo \<and> (\<forall>j\<in>set js. j < length (bo ! i)) \<Longrightarrow>
   valid_box bo num pos is js =
     Inr (\<forall>i\<in>set is. \<forall>j\<in>set js. bo ! i ! j = num \<longrightarrow> (i, j) = pos)"
  by (induction "is") (auto simp: valid_box_cols_eq)

lemma div3_iff: "i div 3 = q \<longleftrightarrow> q * 3 \<le> i \<and> i < q * 3 + 3" for i q :: nat
proof
  assume "i div 3 = q"
  then have "i = q * 3 + i mod 3"
    by (metis div_mult_mod_eq)
  moreover have "i mod 3 < 3"
    by simp
  ultimately show "q * 3 \<le> i \<and> i < q * 3 + 3"
    by linarith
next
  assume "q * 3 \<le> i \<and> i < q * 3 + 3"
  then show "i div 3 = q"
    by (intro div_nat_eqI) (simp_all add: mult.commute)
qed

lemma box_range:
  fixes k i :: nat
  assumes k: "k < 9"
  shows "i \<in> set [k div 3 * 3..<k div 3 * 3 + 3] \<longleftrightarrow> i < 9 \<and> i div 3 = k div 3"
proof -
  have "k div 3 < 3"
    using k by (simp add: div_less_iff_less_mult)
  then have q: "k div 3 * 3 + 3 \<le> 9"
    by linarith
  show ?thesis
    unfolding set_upt atLeastLessThan_iff div3_iff[of i] using q by linarith
qed

lemma set_cells9: "set cells9 = {p. fst p < 9 \<and> snd p < 9}"
  unfolding cells9_def set_product set_upt by auto

text \<open>On a 9x9 board \<^verbatim>\<open>valid\<close> raises nothing and decides the three loops' conditions.\<close>

lemma valid_wf9:
  assumes "wf9 bo" "r < 9" "c < 9"
  shows "valid bo num (r, c) = Inr (\<not> occurs_elsewhere bo num (r, c))"
proof -
  have len: "length bo = 9" and row: "\<And>i. i < 9 \<Longrightarrow> length (bo ! i) = 9"
    using assms by (simp_all add: wf9_def)
  define P where "P \<longleftrightarrow> (\<forall>j\<in>set [0..<9]. bo ! r ! j = num \<longrightarrow> j = c)"
  define Q where "Q \<longleftrightarrow> (\<forall>i\<in>set [0..<9]. bo ! i ! c = num \<longrightarrow> i = r)"
  define B where "B \<longleftrightarrow> (\<forall>i\<in>set [r div 3 * 3..<r div 3 * 3 + 3].
      \<forall>j\<in>set [c div 3 * 3..<c div 3 * 3 + 3]. bo ! i ! j = num \<longrightarrow> (i, j) = (r, c))"
  have R: "valid_row bo num (r, c) [0..<9] = Inr P"
    unfolding P_def by (rule valid_row_eq) (use assms len row in auto)
  have C: "valid_col bo num (r, c) [0..<9] = Inr Q"
    unfolding Q_def by (rule valid_col_eq) (use assms len row in auto)
  have X: "valid_box bo num (r, c) [r div 3 * 3..<r div 3 * 3 + 3] [c div 3 * 3..<c div 3 * 3 + 3]
     = Inr B"
    unfolding B_def
  proof (rule valid_box_eq, intro ballI conjI)
    fix i assume i: "i \<in> set [r div 3 * 3..<r div 3 * 3 + 3]"
    then have i9: "i < 9" using assms(2) box_range[of r i] by blast
    then show "i < length bo" by (simp add: len)
    fix j assume "j \<in> set [c div 3 * 3..<c div 3 * 3 + 3]"
    then have "j < 9" using assms(3) box_range[of c j] by blast
    then show "j < length (bo ! i)" using i9 by (simp add: row)
  qed
  have rb: "\<And>i. i \<in> set [r div 3 * 3..<r div 3 * 3 + 3] \<longleftrightarrow> i < 9 \<and> i div 3 = r div 3"
    by (rule box_range[OF assms(2)])
  have cb: "\<And>j. j \<in> set [c div 3 * 3..<c div 3 * 3 + 3] \<longleftrightarrow> j < 9 \<and> j div 3 = c div 3"
    by (rule box_range[OF assms(3)])
  have s9: "\<And>i. i \<in> set [0..<9] \<longleftrightarrow> i < 9"
    by simp
  have E: "(P \<and> Q \<and> B) = (\<not> occurs_elsewhere bo num (r, c))"
    unfolding P_def Q_def B_def Ball_def Bex_def rb cb s9 occurs_elsewhere_def same_unit_def
      cell_at_def set_cells9 mem_Collect_eq
    using assms(2,3) by (simp only: split_paired_All split_paired_Ex fst_conv snd_conv prod.inject) blast
  have g0: "getitem bo 0 = Inr (bo ! 0)"
    by (simp add: getitem_Inr len)
  have l0: "length (bo ! 0) = 9"
    by (simp add: row)
  have "valid bo num (r, c) = (if \<not> P then Inr False else if \<not> Q then Inr False else Inr B)"
    unfolding valid_def g0 sum.case l0 R len C Let_def fst_conv snd_conv X ..
  also have "\<dots> = Inr (P \<and> Q \<and> B)"
    by (cases P; cases Q; simp)
  finally show ?thesis
    by (simp only: E)
qed

text \<open>
  Claim C1. On a 9x9 board and a position inside it, \<^verbatim>\<open>valid\<close> returns false exactly when
  the digit occurs at another cell of the position's row, column or box; the position itself
  is left out of the comparison. The statement holds for every number, so also for the digits
  1 to 9.
\<close>

theorem valid_false_iff_occurs_elsewhere:
  assumes "wf9 bo" and "row < 9" and "col < 9"
  shows "valid bo digit (row, col) = Inr (\<not> occurs_elsewhere bo digit (row, col))"
  using assms by (rule valid_wf9)

theorem valid_false_iff_occurs_elsewhere_witness:
  "wf9 box_pair_board \<and> (0::nat) < 9 \<and>
   valid box_pair_board 4 (0, 0) = Inr False \<and> occurs_elsewhere box_pair_board 4 (0, 0)"
proof -
  have w: "wf9 box_pair_board"
    by code_simp
  have o: "occurs_elsewhere box_pair_board 4 (0, 0)"
    by code_simp
  show ?thesis
    using valid_false_iff_occurs_elsewhere [OF w, of 0 0 4] w o by simp
qed

section \<open>Indexing and the scan for an empty cell\<close>

lemma getitem2_Inr_iff:
  "getitem2 bo i j = Inr v \<longleftrightarrow> i < length bo \<and> j < length (bo ! i) \<and> v = bo ! i ! j"
  by (auto simp: getitem2_def getitem_def)

lemma setitem2_Inr_iff:
  "setitem2 bo i j v = Inr bo' \<longleftrightarrow>
     i < length bo \<and> j < length (bo ! i) \<and> bo' = bo[i := (bo ! i)[j := v]]"
  by (auto simp: setitem2_def getitem_def)

lemma undo_write:
  assumes "i < length bo" "j < length (bo ! i)" "bo ! i ! j = 0"
    and "setitem2 bo i j v = Inr bo1" and "setitem2 bo1 i j 0 = Inr bo3"
  shows "bo3 = bo"
proof -
  have b1: "bo1 = bo[i := (bo ! i)[j := v]]"
    using assms(4) by (simp add: setitem2_Inr_iff)
  have "bo3 = bo1[i := (bo1 ! i)[j := 0]]"
    using assms(5) by (simp add: setitem2_Inr_iff)
  also have "\<dots> = bo[i := (bo ! i)[j := 0]]"
    using assms(1) by (simp add: b1)
  also have "(bo ! i)[j := 0] = bo ! i"
    using assms(2,3) by (metis list_update_id)
  also have "bo[i := bo ! i] = bo"
    by (rule list_update_id)
  finally show ?thesis .
qed

lemma find_empty_cols_Some:
  "find_empty_cols bo i js = Inr (Some p) \<Longrightarrow>
   \<exists>j\<in>set js. p = (i, j) \<and> i < length bo \<and> j < length (bo ! i) \<and> bo ! i ! j = 0"
  by (induction js) (auto simp: getitem2_Inr_iff split: sum.splits if_splits)

lemma find_empty_rows_Some:
  "find_empty_rows bo is = Inr (Some (r, c)) \<Longrightarrow>
   r < length bo \<and> c < length (bo ! r) \<and> bo ! r ! c = 0"
  by (induction "is") (auto dest!: find_empty_cols_Some split: sum.splits option.splits)

lemma find_empty_Some:
  "find_empty bo = Inr (Some (r, c)) \<Longrightarrow> r < length bo \<and> c < length (bo ! r) \<and> bo ! r ! c = 0"
  unfolding find_empty_def by (rule find_empty_rows_Some)

section \<open>The backtracking search\<close>

text \<open>One pass of the loop over the digits, by the path the body takes.\<close>

lemma solve_digits_Cons_cases [consumes 1, case_names valid_raises skip write_raises rec_raises
    solved undo_raises backtrack]:
  assumes "solve_digits rec bo row col (i # is) = Some x"
  obtains
    e where "valid bo i (row, col) = Inl e" "x = Inl e"
  | "valid bo i (row, col) = Inr False" "solve_digits rec bo row col is = Some x"
  | e where "valid bo i (row, col) = Inr True" "setitem2 bo row col i = Inl e" "x = Inl e"
  | e bo1 where "valid bo i (row, col) = Inr True" "setitem2 bo row col i = Inr bo1"
      "rec bo1 = Some (Inl e)" "x = Inl e"
  | bo1 bo2 where "valid bo i (row, col) = Inr True" "setitem2 bo row col i = Inr bo1"
      "rec bo1 = Some (Inr (True, bo2))" "x = Inr (True, bo2)"
  | e bo1 bo2 where "valid bo i (row, col) = Inr True" "setitem2 bo row col i = Inr bo1"
      "rec bo1 = Some (Inr (False, bo2))" "setitem2 bo2 row col 0 = Inl e" "x = Inl e"
  | bo1 bo2 bo3 where "valid bo i (row, col) = Inr True" "setitem2 bo row col i = Inr bo1"
      "rec bo1 = Some (Inr (False, bo2))" "setitem2 bo2 row col 0 = Inr bo3"
      "solve_digits rec bo3 row col is = Some x"
  using assms by (auto split: sum.splits if_splits option.splits prod.splits)

text \<open>A call that reports failure has undone each of its writes.\<close>

lemma solve_digits_False:
  assumes rec: "\<And>b b'. rec b = Some (Inr (False, b')) \<Longrightarrow> b' = b"
    and zero: "bo ! row ! col = 0"
  shows "solve_digits rec bo row col ds = Some (Inr (False, bo')) \<Longrightarrow> bo' = bo"
proof (induction ds)
  case Nil
  then show ?case by simp
next
  case (Cons i "is")
  from Cons.prems show ?case
  proof (cases rule: solve_digits_Cons_cases)
    case skip
    then show ?thesis using Cons.IH by simp
  next
    case (backtrack bo1 bo2 bo3)
    have "bo2 = bo1"
      using backtrack(3) by (rule rec)
    moreover have "row < length bo" "col < length (bo ! row)"
      using backtrack(2) by (simp_all add: setitem2_Inr_iff)
    ultimately have "bo3 = bo"
      using undo_write[OF _ _ zero backtrack(2)] backtrack(4) by simp
    with backtrack(5) show ?thesis
      using Cons.IH by simp
  qed simp_all
qed

lemma solve_False: "solve n bo = Some (Inr (False, bo')) \<Longrightarrow> bo' = bo"
proof (induction n arbitrary: bo bo')
  case 0
  then show ?case by simp
next
  case (Suc n)
  from Suc.prems obtain row col where f: "find_empty bo = Inr (Some (row, col))"
    and d: "solve_digits (solve n) bo row col [1..9] = Some (Inr (False, bo'))"
    by (auto split: sum.splits option.splits)
  have "bo ! row ! col = 0"
    using find_empty_Some[OF f] by simp
  then show ?case
    using solve_digits_False[of "solve n" bo row col "[1..9]" bo'] Suc.IH d by blast
qed


text \<open>The search keeps the shape of the board and every cell that was filled.\<close>

lemma keeps_givens_refl: "keeps_givens bo bo"
  by (simp add: keeps_givens_def)

lemma keeps_givens_lengths:
  assumes "keeps_givens bo bo'"
  shows "length bo' = length bo" and "i < length bo \<Longrightarrow> length (bo' ! i) = length (bo ! i)"
proof -
  have m: "map length bo' = map length bo"
    using assms by (simp add: keeps_givens_def)
  then show l: "length bo' = length bo"
    by (metis length_map)
  show "length (bo' ! i) = length (bo ! i)" if "i < length bo"
    using that l m by (metis nth_map)
qed

lemma keeps_givens_trans:
  assumes "keeps_givens a b" "keeps_givens b c"
  shows "keeps_givens a c"
  unfolding keeps_givens_def
proof (intro conjI allI impI)
  show "map length c = map length a"
    using assms by (simp add: keeps_givens_def)
  fix i j assume i: "i < length a" and j: "j < length (a ! i)" and nz: "a ! i ! j \<noteq> 0"
  have ab: "b ! i ! j = a ! i ! j"
    using assms(1) i j nz by (simp add: keeps_givens_def)
  have "i < length b" "j < length (b ! i)"
    using keeps_givens_lengths[OF assms(1)] i j by simp_all
  then have "c ! i ! j = b ! i ! j"
    using assms(2) ab nz by (simp add: keeps_givens_def)
  with ab show "c ! i ! j = a ! i ! j"
    by simp
qed

lemma map_length_write:
  "map length (bo[i := (bo ! i)[j := v]]) = map length bo"
  by (cases "i < length bo") (simp_all add: map_update list_update_same_conv list_update_beyond)

lemma keeps_givens_write:
  assumes "bo ! row ! col = 0" "setitem2 bo row col v = Inr bo1"
  shows "keeps_givens bo bo1"
proof -
  have b1: "bo1 = bo[row := (bo ! row)[col := v]]" and r: "row < length bo"
    using assms(2) by (simp_all add: setitem2_Inr_iff)
  show ?thesis
    unfolding keeps_givens_def b1
  proof (intro conjI allI impI)
    show "map length (bo[row := (bo ! row)[col := v]]) = map length bo"
      by (rule map_length_write)
    fix i j assume "i < length bo" "j < length (bo ! i)" "bo ! i ! j \<noteq> 0"
    then show "bo[row := (bo ! row)[col := v]] ! i ! j = bo ! i ! j"
      using assms(1) by (cases "i = row"; cases "j = col"; simp)
  qed
qed

text \<open>Emptying again a cell that was empty at first keeps the givens of the first board.\<close>

lemma keeps_givens_undo:
  assumes "bo ! row ! col = 0" "keeps_givens bo bo2" "setitem2 bo2 row col v = Inr bo3"
  shows "keeps_givens bo bo3"
proof -
  have b3: "bo3 = bo2[row := (bo2 ! row)[col := v]]" and r: "row < length bo2"
    using assms(3) by (simp_all add: setitem2_Inr_iff)
  show ?thesis
    unfolding keeps_givens_def b3
  proof (intro conjI allI impI)
    show "map length (bo2[row := (bo2 ! row)[col := v]]) = map length bo"
      using assms(2) by (simp add: map_length_write keeps_givens_def)
    fix i j assume i: "i < length bo" and j: "j < length (bo ! i)" and nz: "bo ! i ! j \<noteq> 0"
    have "i < length bo2" "j < length (bo2 ! i)"
      using keeps_givens_lengths[OF assms(2)] i j by simp_all
    moreover have "bo2 ! i ! j = bo ! i ! j"
      using assms(2) i j nz by (simp add: keeps_givens_def)
    ultimately show "bo2[row := (bo2 ! row)[col := v]] ! i ! j = bo ! i ! j"
      using assms(1) nz by (cases "i = row"; cases "j = col"; auto)
  qed
qed

lemma solve_digits_keeps_givens:
  assumes rec: "\<And>b res b'. rec b = Some (Inr (res, b')) \<Longrightarrow> keeps_givens b b'"
  shows "bo ! row ! col = 0 \<Longrightarrow> keeps_givens bo0 bo \<Longrightarrow> bo0 ! row ! col = 0 \<Longrightarrow>
    solve_digits rec bo row col ds = Some (Inr (res, bo')) \<Longrightarrow> keeps_givens bo0 bo'"
proof (induction ds arbitrary: bo)
  case Nil
  then show ?case by simp
next
  case (Cons i "is")
  from Cons.prems(4) show ?case
  proof (cases rule: solve_digits_Cons_cases)
    case skip
    then show ?thesis using Cons.IH Cons.prems by simp
  next
    case (solved bo1 bo2)
    have "keeps_givens bo bo1"
      using Cons.prems(1) solved(2) by (rule keeps_givens_write)
    moreover have "keeps_givens bo1 bo2"
      using solved(3) by (rule rec)
    ultimately show ?thesis
      using solved(4) Cons.prems(2) keeps_givens_trans by blast
  next
    case (backtrack bo1 bo2 bo3)
    have "keeps_givens bo bo1"
      using Cons.prems(1) backtrack(2) by (rule keeps_givens_write)
    moreover have "keeps_givens bo1 bo2"
      using backtrack(3) by (rule rec)
    ultimately have "keeps_givens bo0 bo2"
      using Cons.prems(2) keeps_givens_trans by blast
    then have k3: "keeps_givens bo0 bo3"
      using Cons.prems(3) backtrack(4) keeps_givens_undo by blast
    have "bo3 ! row ! col = 0"
      using backtrack(4) by (simp add: setitem2_Inr_iff)
    then show ?thesis
      using Cons.IH[OF _ k3 Cons.prems(3) backtrack(5)] by simp
  qed simp_all
qed

lemma solve_keeps_givens: "solve n bo = Some (Inr (res, bo')) \<Longrightarrow> keeps_givens bo bo'"
proof (induction n arbitrary: bo res bo')
  case 0
  then show ?case by simp
next
  case (Suc n)
  show ?case
  proof (cases "find_empty bo")
    case (Inl e)
    with Suc.prems show ?thesis by simp
  next
    case (Inr found)
    show ?thesis
    proof (cases found)
      case None
      with Inr Suc.prems show ?thesis by (simp add: keeps_givens_refl)
    next
      case (Some p)
      obtain row col where p: "p = (row, col)" by (cases p)
      have z: "bo ! row ! col = 0"
        using find_empty_Some[of bo row col] Inr Some p by simp
      have d: "solve_digits (solve n) bo row col [1..9] = Some (Inr (res, bo'))"
        using Suc.prems Inr Some p by simp
      show ?thesis
        using solve_digits_keeps_givens[of "solve n" bo row col bo "[1..9]" res bo', OF Suc.IH z keeps_givens_refl z d] .
    qed
  qed
qed

text \<open>
  Claim C2. Whenever the silent solver returns false, the matrix after the call is the matrix
  before the call, cell for cell. This holds for a matrix of any shape and any amount of fuel
  with which the call returns.
\<close>

theorem solve_exhausted_restores_grid:
  assumes "solve n bo = Some (Inr (False, bo'))"
  shows "bo' = bo"
  using assms by (rule solve_False)

theorem solve_exhausted_restores_grid_witness:
  "solve 3 dead_end_board = Some (Inr (False, dead_end_board))"
proof -
  have s: "solve 3 dead_end_board = Some (Inr (False, dead_end_board))"
    by code_simp
  show ?thesis
    using solve_exhausted_restores_grid [OF s] s by simp
qed

text \<open>
  Claim C10. Whatever the silent solver returns, the matrix keeps its shape and every cell
  that was nonzero when the call began holds the same value when the call returns: the solver
  picks only cells that \<^verbatim>\<open>find_empty\<close> reported as holding 0.
\<close>

theorem solve_preserves_nonzero_cells:
  assumes "solve n bo = Some (Inr (res, bo'))"
  shows "map length bo' = map length bo \<and>
    (\<forall>i<length bo. \<forall>j<length (bo ! i). bo ! i ! j \<noteq> 0 \<longrightarrow> bo' ! i ! j = bo ! i ! j)"
  using solve_keeps_givens [OF assms] by (simp add: keeps_givens_def)

theorem solve_preserves_nonzero_cells_witness:
  "solve 3 two_empty_board = Some (Inr (True, solved_board)) \<and>
   keeps_givens two_empty_board solved_board"
proof -
  have s: "solve 3 two_empty_board = Some (Inr (True, solved_board))"
    by code_simp
  show ?thesis
    using solve_preserves_nonzero_cells [OF s] s by (simp add: keeps_givens_def)
qed

text \<open>A call that reports success leaves a matrix in which the scan finds no empty cell.\<close>

lemma solve_digits_True:
  assumes rec: "\<And>b b'. rec b = Some (Inr (True, b')) \<Longrightarrow> find_empty b' = Inr None"
  shows "solve_digits rec bo row col ds = Some (Inr (True, bo')) \<Longrightarrow> find_empty bo' = Inr None"
proof (induction ds arbitrary: bo)
  case Nil
  then show ?case by simp
next
  case (Cons i "is")
  from Cons.prems show ?case
  proof (cases rule: solve_digits_Cons_cases)
    case skip
    then show ?thesis using Cons.IH by simp
  next
    case (solved bo1 bo2)
    then show ?thesis using rec by simp
  next
    case (backtrack bo1 bo2 bo3)
    then show ?thesis using Cons.IH by simp
  qed simp_all
qed

lemma solve_True: "solve n bo = Some (Inr (True, bo')) \<Longrightarrow> find_empty bo' = Inr None"
proof (induction n arbitrary: bo bo')
  case 0
  then show ?case by simp
next
  case (Suc n)
  show ?case
  proof (cases "find_empty bo")
    case (Inl e)
    with Suc.prems show ?thesis by simp
  next
    case (Inr found)
    show ?thesis
    proof (cases found)
      case None
      with Inr Suc.prems show ?thesis by simp
    next
      case (Some p)
      obtain row col where p: "p = (row, col)" by (cases p)
      have "solve_digits (solve n) bo row col [1..9] = Some (Inr (True, bo'))"
        using Suc.prems Inr Some p by simp
      then show ?thesis
        using solve_digits_True[of "solve n"] Suc.IH by blast
    qed
  qed
qed

text \<open>More fuel does not change a result.\<close>

lemma solve_digits_mono:
  assumes rec: "\<And>b y. rec b = Some y \<Longrightarrow> rec' b = Some y"
  shows "solve_digits rec bo row col ds = Some x \<Longrightarrow> solve_digits rec' bo row col ds = Some x"
proof (induction ds arbitrary: bo)
  case Nil
  then show ?case by simp
next
  case (Cons i "is")
  from Cons.prems show ?case
  proof (cases rule: solve_digits_Cons_cases)
    case skip
    then show ?thesis using Cons.IH by simp
  next
    case (rec_raises e bo1)
    then show ?thesis using rec[OF rec_raises(3)] by simp
  next
    case (solved bo1 bo2)
    then show ?thesis using rec[OF solved(3)] by simp
  next
    case (undo_raises e bo1 bo2)
    then show ?thesis using rec[OF undo_raises(3)] by simp
  next
    case (backtrack bo1 bo2 bo3)
    then show ?thesis using rec[OF backtrack(3)] Cons.IH[OF backtrack(5)] by simp
  qed simp_all
qed

lemma solve_Suc_mono: "solve n bo = Some x \<Longrightarrow> solve (Suc n) bo = Some x"
proof (induction n arbitrary: bo x)
  case 0
  then show ?case by simp
next
  case (Suc n)
  show ?case
  proof (cases "find_empty bo")
    case (Inl e)
    with Suc.prems show ?thesis by simp
  next
    case (Inr found)
    show ?thesis
    proof (cases found)
      case None
      with Inr Suc.prems show ?thesis by simp
    next
      case (Some p)
      obtain row col where p: "p = (row, col)" by (cases p)
      have "solve_digits (solve n) bo row col [1..9] = Some x"
        using Suc.prems Inr Some p by simp
      then have "solve_digits (solve (Suc n)) bo row col [1..9] = Some x"
        using solve_digits_mono[of "solve n" "solve (Suc n)"] Suc.IH by blast
      then show ?thesis
        using Inr Some p by simp
    qed
  qed
qed

lemma solve_mono: "solve n bo = Some x \<Longrightarrow> n \<le> m \<Longrightarrow> solve m bo = Some x"
proof (induction m)
  case 0
  then show ?case by simp
next
  case (Suc m)
  show ?case
  proof (cases "n = Suc m")
    case True
    with Suc.prems show ?thesis by simp
  next
    case False
    with Suc.prems have "n \<le> m" by simp
    then have "solve m bo = Some x" using Suc.IH Suc.prems(1) by simp
    then show ?thesis by (rule solve_Suc_mono)
  qed
qed

section \<open>Termination on 9x9 boards\<close>

lemma wf9_iff: "wf9 bo \<longleftrightarrow> map length bo = replicate 9 9"
proof
  assume w: "wf9 bo"
  show "map length bo = replicate 9 9"
  proof (rule nth_equalityI)
    show "length (map length bo) = length (replicate 9 (9::nat))"
      using w by (simp add: wf9_def)
    fix i assume "i < length (map length bo)"
    then show "map length bo ! i = replicate 9 9 ! i"
      using w by (simp add: wf9_def)
  qed
next
  assume m: "map length bo = replicate 9 9"
  have "length bo = 9"
    using m by (metis length_map length_replicate)
  moreover have "length r = 9" if "r \<in> set bo" for r
  proof -
    have "length r \<in> set (map length bo)"
      using that by simp
    then show ?thesis
      unfolding m by simp
  qed
  ultimately show "wf9 bo"
    by (simp add: wf9_def)
qed

lemma wf9_write: "wf9 bo \<Longrightarrow> wf9 (bo[i := (bo ! i)[j := v]])"
  by (simp add: wf9_iff map_length_write)

lemma wf9_nth: "wf9 bo \<Longrightarrow> i < 9 \<Longrightarrow> length (bo ! i) = 9"
  by (simp add: wf9_def)

lemma find_empty_cols_returns:
  "i < length bo \<Longrightarrow> \<forall>j\<in>set js. j < length (bo ! i) \<Longrightarrow> \<exists>x. find_empty_cols bo i js = Inr x"
  by (induction js) (auto simp: getitem2_Inr)

lemma find_empty_rows_returns:
  assumes "0 < length bo" "\<forall>i<length bo. length (bo ! i) = length (bo ! 0)"
  shows "\<forall>i\<in>set is. i < length bo \<Longrightarrow> \<exists>x. find_empty_rows bo is = Inr x"
proof (induction "is")
  case Nil
  then show ?case by simp
next
  case (Cons i "is")
  have g: "getitem bo 0 = Inr (bo ! 0)"
    using assms(1) by (simp add: getitem_Inr)
  have "i < length bo"
    using Cons.prems by simp
  moreover have "\<forall>j\<in>set [0..<length (bo ! 0)]. j < length (bo ! i)"
    using assms(2) \<open>i < length bo\<close> by simp
  ultimately obtain x where x: "find_empty_cols bo i [0..<length (bo ! 0)] = Inr x"
    using find_empty_cols_returns by blast
  from Cons.IH Cons.prems obtain y where y: "find_empty_rows bo is = Inr y"
    by auto
  show ?case
    by (cases x) (simp_all add: g x y)
qed

lemma find_empty_wf9: "wf9 bo \<Longrightarrow> \<exists>x. find_empty bo = Inr x"
  unfolding find_empty_def
  by (rule find_empty_rows_returns) (simp_all add: wf9_def)

lemma count_list_write:
  "j < length xs \<Longrightarrow> xs ! j = 0 \<Longrightarrow> v \<noteq> 0 \<Longrightarrow>
   Suc (count_list (xs[j := v]) 0) = count_list xs (0::int)"
proof (induction xs arbitrary: j)
  case Nil
  then show ?case by simp
next
  case (Cons x xs)
  then show ?case by (cases j) auto
qed

lemma sum_list_write:
  fixes f :: "'a \<Rightarrow> nat"
  shows "i < length xs \<Longrightarrow> Suc (f y) = f (xs ! i) \<Longrightarrow>
    Suc (sum_list (map f (xs[i := y]))) = sum_list (map f xs)"
proof (induction xs arbitrary: i)
  case Nil
  then show ?case by simp
next
  case (Cons x xs)
  then show ?case by (cases i) auto
qed

lemma empties_write:
  assumes "i < length bo" "j < length (bo ! i)" "bo ! i ! j = 0" "v \<noteq> 0"
  shows "Suc (empties (bo[i := (bo ! i)[j := v]])) = empties bo"
  unfolding empties_def
  using assms(1) count_list_write[OF assms(2,3,4)] by (rule sum_list_write)

lemma solve_digits_returns:
  assumes wf: "wf9 bo" and r: "row < 9" and c: "col < 9" and zero: "bo ! row ! col = 0"
    and rec_returns: "\<And>b. wf9 b \<Longrightarrow> Suc (empties b) = empties bo \<Longrightarrow>
      \<exists>res b'. rec b = Some (Inr (res, b'))"
    and rec_False: "\<And>b b'. rec b = Some (Inr (False, b')) \<Longrightarrow> b' = b"
  shows "0 \<notin> set ds \<Longrightarrow> \<exists>res bo'. solve_digits rec bo row col ds = Some (Inr (res, bo'))"
proof (induction ds)
  case Nil
  show ?case by (intro exI[of _ False] exI[of _ bo]) simp
next
  case (Cons i "is")
  have i: "i \<noteq> 0" and "is": "0 \<notin> set is"
    using Cons.prems by auto
  have rl: "row < length bo" and cl: "col < length (bo ! row)"
    using wf r c by (simp_all add: wf9_def)
  define bo1 where "bo1 = bo[row := (bo ! row)[col := i]]"
  have v: "valid bo i (row, col) = Inr (\<not> occurs_elsewhere bo i (row, col))"
    using wf r c by (rule valid_wf9)
  have w1: "setitem2 bo row col i = Inr bo1"
    using rl cl by (simp add: setitem2_Inr_iff bo1_def)
  have "wf9 bo1"
    unfolding bo1_def using wf by (rule wf9_write)
  moreover have "Suc (empties bo1) = empties bo"
    unfolding bo1_def using rl cl zero i by (rule empties_write)
  ultimately obtain res b2 where rec1: "rec bo1 = Some (Inr (res, b2))"
    using rec_returns by blast
  show ?case
  proof (cases "occurs_elsewhere bo i (row, col)")
    case True
    then show ?thesis
      using Cons.IH "is" by (simp add: v)
  next
    case False
    show ?thesis
    proof (cases res)
      case True
      then show ?thesis
        using False by (auto simp: v w1 rec1)
    next
      case res: False
      then have "rec bo1 = Some (Inr (False, b2))"
        using rec1 by simp
      then have b2: "b2 = bo1"
        by (rule rec_False)
      have "row < length bo1" "col < length (bo1 ! row)"
        using rl cl by (simp_all add: bo1_def)
      then obtain bo3 where w3: "setitem2 bo1 row col 0 = Inr bo3"
        by (simp add: setitem2_Inr_iff)
      have "bo3 = bo"
        using rl cl zero w1 w3 by (rule undo_write)
      then show ?thesis
        using False res Cons.IH "is" by (simp add: v w1 rec1 b2 w3)
    qed
  qed
qed

lemma solve_returns:
  "wf9 bo \<Longrightarrow> empties bo < n \<Longrightarrow> \<exists>res bo'. solve n bo = Some (Inr (res, bo'))"
proof (induction n arbitrary: bo)
  case 0
  then show ?case by simp
next
  case (Suc n)
  obtain found where f: "find_empty bo = Inr found"
    using find_empty_wf9[OF Suc.prems(1)] ..
  show ?case
  proof (cases found)
    case None
    then show ?thesis by (auto simp: f)
  next
    case (Some p)
    obtain row col where p: "p = (row, col)" by (cases p)
    have fe: "find_empty bo = Inr (Some (row, col))"
      using f Some p by simp
    have rc: "row < length bo \<and> col < length (bo ! row) \<and> bo ! row ! col = 0"
      using fe by (rule find_empty_Some)
    then have r: "row < 9"
      using Suc.prems(1) by (simp add: wf9_def)
    then have c: "col < 9"
      using rc wf9_nth[OF Suc.prems(1)] by simp
    have nz: "(0::int) \<notin> set [1..9]"
      by simp
    have "\<exists>res bo'. solve_digits (solve n) bo row col [1..9] = Some (Inr (res, bo'))"
    proof (rule solve_digits_returns[OF Suc.prems(1) r c _ _ _ nz])
      show "bo ! row ! col = 0" using rc by simp
      show "\<exists>res b'. solve n b = Some (Inr (res, b'))" if "wf9 b" "Suc (empties b) = empties bo" for b
        using that Suc.prems(2) by (intro Suc.IH) simp_all
      show "b' = b" if "solve n b = Some (Inr (False, b'))" for b b'
        using that by (rule solve_False)
    qed
    then show ?thesis
      by (simp add: fe)
  qed
qed

text \<open>
  Claim C9. On every 9x9 board the silent solver returns true or false: with more units of
  fuel than the board has empty cells the run ends with a boolean and a matrix, raises nothing,
  and the result is the one that one unit more than the number of empty cells gives. The nesting
  of the calls is bounded by the number of empty cells, which each write of a digit lowers by
  one. No bound on the values of the cells is needed.
\<close>

theorem solve_terminates:
  assumes "wf9 bo" and "empties bo < n"
  shows "\<exists>res bo'. solve n bo = Some (Inr (res, bo')) \<and>
    solve (Suc (empties bo)) bo = Some (Inr (res, bo'))"
proof -
  obtain res bo' where s: "solve (Suc (empties bo)) bo = Some (Inr (res, bo'))"
    using solve_returns[OF assms(1), of "Suc (empties bo)"] by auto
  have "Suc (empties bo) \<le> n"
    using assms(2) by simp
  with s have "solve n bo = Some (Inr (res, bo'))"
    by (rule solve_mono)
  with s show ?thesis
    by blast
qed

theorem solve_terminates_witness:
  "wf9 two_empty_board \<and> empties two_empty_board < 5 \<and>
   (\<exists>res bo'. solve 5 two_empty_board = Some (Inr (res, bo')) \<and>
      solve (Suc (empties two_empty_board)) two_empty_board = Some (Inr (res, bo')))"
proof -
  have w: "wf9 two_empty_board"
    by code_simp
  have e: "empties two_empty_board < 5"
    by code_simp
  show ?thesis
    using solve_terminates [OF w e] w e by blast
qed

section \<open>Soundness and completeness of the search\<close>

lemma cell_at_write:
  assumes "r < length bo" "c < length (bo ! r)"
  shows "cell_at (bo[r := (bo ! r)[c := v]]) p = (if p = (r, c) then v else cell_at bo p)"
proof (cases "fst p = r")
  case True
  then show ?thesis
    using assms by (cases p) (auto simp: cell_at_def)
next
  case False
  then show ?thesis
    by (cases p) (auto simp: cell_at_def)
qed

lemma same_unit_sym: "same_unit p q \<Longrightarrow> same_unit q p"
  by (auto simp: same_unit_def)

lemma no_conflict_write:
  assumes rl: "r < length bo" and cl: "c < length (bo ! r)"
    and ok: "\<not> conflicting_givens bo" and free: "\<not> occurs_elsewhere bo v (r, c)"
  shows "\<not> conflicting_givens (bo[r := (bo ! r)[c := v]])"
proof
  let ?b = "bo[r := (bo ! r)[c := v]]"
  assume "conflicting_givens ?b"
  then obtain p q where p: "p \<in> set cells9" and q: "q \<in> set cells9" and ne: "p \<noteq> q"
    and u: "same_unit p q" and nz: "cell_at ?b p \<noteq> 0" and eq: "cell_at ?b p = cell_at ?b q"
    unfolding conflicting_givens_def by blast
  note at = cell_at_write[OF rl cl, of v]
  consider "p = (r, c)" | "p \<noteq> (r, c)" "q = (r, c)" | "p \<noteq> (r, c)" "q \<noteq> (r, c)"
    by blast
  then show False
  proof cases
    case 1
    then have "q \<noteq> (r, c)" "cell_at bo q = v" "same_unit q (r, c)"
      using ne eq u by (auto simp: at dest: same_unit_sym)
    then show False
      using free q unfolding occurs_elsewhere_def by blast
  next
    case 2
    then have "cell_at bo p = v" "same_unit p (r, c)"
      using eq u by (auto simp: at)
    then show False
      using free p 2(1) unfolding occurs_elsewhere_def by blast
  next
    case 3
    then have "cell_at bo p \<noteq> 0" "cell_at bo p = cell_at bo q"
      using nz eq by (simp_all add: at)
    then show False
      using ok p q ne u unfolding conflicting_givens_def by blast
  qed
qed

lemma cells_in_range_write:
  assumes "r < length bo" "c < length (bo ! r)" "cells_in_range bo" "0 \<le> v" "v \<le> 9"
  shows "cells_in_range (bo[r := (bo ! r)[c := v]])"
  using assms(3,4,5) unfolding cells_in_range_def cell_at_write[OF assms(1,2)] by simp

lemma sound_board_write:
  assumes "sound_board bo" "r < 9" "c < 9" "valid bo v (r, c) = Inr True" "0 \<le> v" "v \<le> 9"
  shows "sound_board (bo[r := (bo ! r)[c := v]])"
proof -
  have wf: "wf9 bo"
    using assms(1) by (simp add: sound_board_def)
  have rl: "r < length bo" and cl: "c < length (bo ! r)"
    using wf assms(2,3) by (simp_all add: wf9_def)
  have "\<not> occurs_elsewhere bo v (r, c)"
    using valid_wf9[OF wf assms(2,3), of v] assms(4) by simp
  then have "\<not> conflicting_givens (bo[r := (bo ! r)[c := v]])"
    using assms(1) by (intro no_conflict_write[OF rl cl]) (simp_all add: sound_board_def)
  moreover have "cells_in_range (bo[r := (bo ! r)[c := v]])"
    using assms(1,5,6) by (intro cells_in_range_write[OF rl cl]) (simp_all add: sound_board_def)
  ultimately show ?thesis
    using wf by (simp add: sound_board_def wf9_write)
qed

lemma solve_digits_sound:
  assumes rec_sound: "\<And>b b'. sound_board b \<Longrightarrow> rec b = Some (Inr (True, b')) \<Longrightarrow> sound_board b'"
    and rec_False: "\<And>b b'. rec b = Some (Inr (False, b')) \<Longrightarrow> b' = b"
    and sb: "sound_board bo" and r: "row < 9" and c: "col < 9" and zero: "bo ! row ! col = 0"
  shows "\<forall>i\<in>set ds. 0 \<le> i \<and> i \<le> 9 \<Longrightarrow>
    solve_digits rec bo row col ds = Some (Inr (True, bo')) \<Longrightarrow> sound_board bo'"
proof (induction ds)
  case Nil
  then show ?case by simp
next
  case (Cons i "is")
  have wf: "wf9 bo"
    using sb by (simp add: sound_board_def)
  have rl: "row < length bo" and cl: "col < length (bo ! row)"
    using wf r c by (simp_all add: wf9_def)
  from Cons.prems(2) show ?case
  proof (cases rule: solve_digits_Cons_cases)
    case skip
    then show ?thesis using Cons.IH Cons.prems(1) by simp
  next
    case (solved bo1 bo2)
    have "bo1 = bo[row := (bo ! row)[col := i]]"
      using solved(2) by (simp add: setitem2_Inr_iff)
    then have "sound_board bo1"
      using sound_board_write[OF sb r c solved(1)] Cons.prems(1) by simp
    then show ?thesis
      using rec_sound solved(3,4) by blast
  next
    case (backtrack bo1 bo2 bo3)
    have "bo2 = bo1"
      using backtrack(3) by (rule rec_False)
    then have "bo3 = bo"
      using undo_write[OF rl cl zero backtrack(2)] backtrack(4) by simp
    then show ?thesis
      using Cons.IH Cons.prems(1) backtrack(5) by simp
  qed simp_all
qed

lemma digits_1_9: "set [1..9] = {i::int. 1 \<le> i \<and> i \<le> 9}"
  by auto

lemma solve_sound: "sound_board bo \<Longrightarrow> solve n bo = Some (Inr (True, bo')) \<Longrightarrow> sound_board bo'"
proof (induction n arbitrary: bo bo')
  case 0
  then show ?case by simp
next
  case (Suc n)
  have wf: "wf9 bo"
    using Suc.prems(1) by (simp add: sound_board_def)
  show ?case
  proof (cases "find_empty bo")
    case (Inl e)
    with Suc.prems show ?thesis by simp
  next
    case (Inr found)
    show ?thesis
    proof (cases found)
      case None
      with Inr Suc.prems show ?thesis by simp
    next
      case (Some p)
      obtain row col where p: "p = (row, col)" by (cases p)
      have rc: "row < length bo \<and> col < length (bo ! row) \<and> bo ! row ! col = 0"
        using find_empty_Some[of bo row col] Inr Some p by simp
      then have r: "row < 9"
        using wf by (simp add: wf9_def)
      then have c: "col < 9"
        using rc wf9_nth[OF wf] by simp
      have d: "solve_digits (solve n) bo row col [1..9] = Some (Inr (True, bo'))"
        using Suc.prems Inr Some p by simp
      have ds: "\<forall>i\<in>set [1..9]. 0 \<le> i \<and> i \<le> (9::int)"
        unfolding digits_1_9 by simp
      show ?thesis
      proof (rule solve_digits_sound[of "solve n" bo row col "[1..9]" bo'])
        show "sound_board b'" if "sound_board b" "solve n b = Some (Inr (True, b'))" for b b'
          using that by (rule Suc.IH)
        show "b' = b" if "solve n b = Some (Inr (False, b'))" for b b'
          using that by (rule solve_False)
        show "bo ! row ! col = 0"
          using rc by simp
      qed (fact Suc.prems(1) r c ds d)+
    qed
  qed
qed

lemma find_empty_cols_None:
  "find_empty_cols bo i js = Inr None \<Longrightarrow>
   \<forall>j\<in>set js. i < length bo \<and> j < length (bo ! i) \<and> bo ! i ! j \<noteq> 0"
  by (induction js) (auto simp: getitem2_Inr_iff split: sum.splits if_splits)

lemma find_empty_rows_None:
  "find_empty_rows bo is = Inr None \<Longrightarrow>
   \<forall>i\<in>set is. \<forall>j<length (bo ! 0). i < length bo \<and> j < length (bo ! i) \<and> bo ! i ! j \<noteq> 0"
proof (induction "is")
  case Nil
  then show ?case by simp
next
  case (Cons i "is")
  from Cons.prems obtain r0 where g: "getitem bo 0 = Inr r0"
    and cols: "find_empty_cols bo i [0..<length r0] = Inr None"
    and rest: "find_empty_rows bo is = Inr None"
    by (auto split: sum.splits option.splits)
  have r0: "r0 = bo ! 0"
    using g by (auto simp: getitem_def split: if_splits)
  have "\<forall>j<length (bo ! 0). i < length bo \<and> j < length (bo ! i) \<and> bo ! i ! j \<noteq> 0"
    using find_empty_cols_None[OF cols] by (simp add: r0)
  then show ?case
    using Cons.IH[OF rest] by simp
qed

lemma find_empty_None:
  "find_empty bo = Inr None \<Longrightarrow>
   \<forall>i<length bo. \<forall>j<length (bo ! 0). j < length (bo ! i) \<and> bo ! i ! j \<noteq> 0"
  unfolding find_empty_def using find_empty_rows_None[of bo "[0..<length bo]"] by simp

lemma cells9_iff: "p \<in> set cells9 \<longleftrightarrow> fst p < 9 \<and> snd p < 9"
  by (simp add: set_cells9)

lemma sound_full_solution:
  assumes sb: "sound_board b" and full: "find_empty b = Inr None"
  shows "solution b"
proof -
  have wf: "wf9 b" and nc: "\<not> conflicting_givens b" and rg: "cells_in_range b"
    using sb by (simp_all add: sound_board_def)
  have nz: "cell_at b p \<noteq> 0" if "p \<in> set cells9" for p
  proof -
    have "fst p < length b" "snd p < length (b ! 0)"
      using that wf by (simp_all add: cells9_iff wf9_def)
    then show ?thesis
      using find_empty_None[OF full] by (simp add: cell_at_def)
  qed
  have "1 \<le> cell_at b p \<and> cell_at b p \<le> 9" if "p \<in> set cells9" for p
    using nz[OF that] rg that by (force simp: cells_in_range_def)
  moreover have "cell_at b p \<noteq> cell_at b q"
    if "p \<in> set cells9" "q \<in> set cells9" "p \<noteq> q \<and> same_unit p q" for p q
    using nc nz[OF that(1)] that unfolding conflicting_givens_def by blast
  ultimately show ?thesis
    using wf unfolding solution_def by blast
qed

lemma keeps_givens_completion:
  assumes wf: "wf9 bo" and k: "keeps_givens bo b'" and s: "solution b'"
  shows "completion bo b'"
  unfolding completion_def
proof (intro conjI ballI impI)
  show "solution b'" by (rule s)
  fix p assume p: "p \<in> set cells9" and nz: "cell_at bo p \<noteq> 0"
  have "fst p < length bo" "snd p < length (bo ! fst p)"
    using p wf by (simp_all add: cells9_iff wf9_def)
  then show "cell_at b' p = cell_at bo p"
    using k nz by (simp add: keeps_givens_def cell_at_def)
qed

lemma completion_sound_board:
  assumes wf: "wf9 bo" and c: "completion bo s"
  shows "sound_board bo"
proof -
  have rng: "\<And>p. p \<in> set cells9 \<Longrightarrow> 1 \<le> cell_at s p \<and> cell_at s p \<le> 9"
    and dist: "\<And>p q. p \<in> set cells9 \<Longrightarrow> q \<in> set cells9 \<Longrightarrow> p \<noteq> q \<Longrightarrow> same_unit p q \<Longrightarrow>
      cell_at s p \<noteq> cell_at s q"
    and agree: "\<And>p. p \<in> set cells9 \<Longrightarrow> cell_at bo p \<noteq> 0 \<Longrightarrow> cell_at s p = cell_at bo p"
    using c unfolding completion_def solution_def by blast+
  have "\<not> conflicting_givens bo"
  proof
    assume "conflicting_givens bo"
    then obtain p q where pq: "p \<in> set cells9" "q \<in> set cells9" "p \<noteq> q" "same_unit p q"
      and nz: "cell_at bo p \<noteq> 0" and eq: "cell_at bo p = cell_at bo q"
      unfolding conflicting_givens_def by blast
    have "cell_at s p = cell_at s q"
      using agree[OF pq(1) nz] agree[OF pq(2)] nz eq by simp
    then show False
      using dist[OF pq] by simp
  qed
  moreover have "cells_in_range bo"
    unfolding cells_in_range_def
  proof
    fix p assume p: "p \<in> set cells9"
    show "0 \<le> cell_at bo p \<and> cell_at bo p \<le> 9"
    proof (cases "cell_at bo p = 0")
      case True
      then show ?thesis by simp
    next
      case False
      then show ?thesis
        using agree[OF p False] rng[OF p] by simp
    qed
  qed
  ultimately show ?thesis
    using wf by (simp add: sound_board_def)
qed

text \<open>A board with a completion takes the completion's digit at each of its empty cells.\<close>

lemma completion_digit_valid:
  assumes wf: "wf9 bo" and c: "completion bo s" and r: "row < 9" and cl: "col < 9"
  shows "valid bo (cell_at s (row, col)) (row, col) = Inr True"
proof -
  have rng: "\<And>p. p \<in> set cells9 \<Longrightarrow> 1 \<le> cell_at s p \<and> cell_at s p \<le> 9"
    and dist: "\<And>p q. p \<in> set cells9 \<Longrightarrow> q \<in> set cells9 \<Longrightarrow> p \<noteq> q \<Longrightarrow> same_unit p q \<Longrightarrow>
      cell_at s p \<noteq> cell_at s q"
    and agree: "\<And>p. p \<in> set cells9 \<Longrightarrow> cell_at bo p \<noteq> 0 \<Longrightarrow> cell_at s p = cell_at bo p"
    using c unfolding completion_def solution_def by blast+
  have rc: "(row, col) \<in> set cells9"
    using r cl by (simp add: cells9_iff)
  have "\<not> occurs_elsewhere bo (cell_at s (row, col)) (row, col)"
  proof
    assume "occurs_elsewhere bo (cell_at s (row, col)) (row, col)"
    then obtain p where p: "p \<in> set cells9" "p \<noteq> (row, col)" "same_unit p (row, col)"
      and eq: "cell_at bo p = cell_at s (row, col)"
      unfolding occurs_elsewhere_def by blast
    have "cell_at bo p \<noteq> 0"
      using eq rng[OF rc] by simp
    then have "cell_at s p = cell_at s (row, col)"
      using agree[OF p(1)] eq by simp
    then show False
      using dist[OF p(1) rc p(2,3)] by simp
  qed
  then show ?thesis
    using valid_wf9[OF wf r cl] by simp
qed

lemma completion_write:
  assumes wf: "wf9 bo" and c: "completion bo s" and r: "row < 9" and cl: "col < 9"
  shows "completion (bo[row := (bo ! row)[col := cell_at s (row, col)]]) s"
proof -
  have rl: "row < length bo" "col < length (bo ! row)"
    using wf r cl by (simp_all add: wf9_def)
  show ?thesis
    using c unfolding completion_def cell_at_write[OF rl] by auto
qed

lemma solve_digits_complete:
  assumes rec_complete: "\<And>b b'. wf9 b \<Longrightarrow> completion b s \<Longrightarrow> rec b \<noteq> Some (Inr (False, b'))"
    and rec_False: "\<And>b b'. rec b = Some (Inr (False, b')) \<Longrightarrow> b' = b"
    and wf: "wf9 bo" and c: "completion bo s" and r: "row < 9" and cl: "col < 9"
    and zero: "bo ! row ! col = 0"
  shows "cell_at s (row, col) \<in> set ds \<Longrightarrow>
    solve_digits rec bo row col ds \<noteq> Some (Inr (False, bo'))"
proof (induction ds)
  case Nil
  then show ?case by simp
next
  case (Cons i "is")
  have rl: "row < length bo" "col < length (bo ! row)"
    using wf r cl by (simp_all add: wf9_def)
  show ?case
  proof
    assume "solve_digits rec bo row col (i # is) = Some (Inr (False, bo'))"
    then show False
    proof (cases rule: solve_digits_Cons_cases)
      case skip
      have "i \<noteq> cell_at s (row, col)"
        using skip(1) completion_digit_valid[OF wf c r cl] by auto
      then show False
        using Cons.IH Cons.prems skip(2) by simp
    next
      case (backtrack bo1 bo2 bo3)
      have b1: "bo1 = bo[row := (bo ! row)[col := i]]"
        using backtrack(2) by (simp add: setitem2_Inr_iff)
      have "i \<noteq> cell_at s (row, col)"
      proof
        assume i: "i = cell_at s (row, col)"
        have "wf9 bo1" "completion bo1 s"
          unfolding b1 i using wf c r cl by (simp_all add: wf9_write completion_write)
        then show False
          using rec_complete backtrack(3) by blast
      qed
      moreover have "bo2 = bo1"
        using backtrack(3) by (rule rec_False)
      then have "bo3 = bo"
        using undo_write[OF rl zero backtrack(2)] backtrack(4) by simp
      ultimately show False
        using Cons.IH Cons.prems backtrack(5) by simp
    qed simp_all
  qed
qed

lemma solve_complete:
  "wf9 bo \<Longrightarrow> completion bo s \<Longrightarrow> solve n bo \<noteq> Some (Inr (False, bo'))"
proof (induction n arbitrary: bo bo')
  case 0
  then show ?case by simp
next
  case (Suc n)
  show ?case
  proof (cases "find_empty bo")
    case (Inl e)
    then show ?thesis by simp
  next
    case (Inr found)
    show ?thesis
    proof (cases found)
      case None
      with Inr show ?thesis by simp
    next
      case (Some p)
      obtain row col where p: "p = (row, col)" by (cases p)
      have rc: "row < length bo \<and> col < length (bo ! row) \<and> bo ! row ! col = 0"
        using find_empty_Some[of bo row col] Inr Some p by simp
      then have r: "row < 9"
        using Suc.prems(1) by (simp add: wf9_def)
      then have c: "col < 9"
        using rc wf9_nth[OF Suc.prems(1)] by simp
      have "(row, col) \<in> set cells9"
        using r c by (simp add: cells9_iff)
      then have "1 \<le> cell_at s (row, col) \<and> cell_at s (row, col) \<le> 9"
        using Suc.prems(2) unfolding completion_def solution_def by blast
      then have d: "cell_at s (row, col) \<in> set [1..9]"
        unfolding digits_1_9 by simp
      have "solve_digits (solve n) bo row col [1..9] \<noteq> Some (Inr (False, bo'))"
      proof (rule solve_digits_complete[of s "solve n" bo row col "[1..9]" bo'])
        show "solve n b \<noteq> Some (Inr (False, b'))" if "wf9 b" "completion b s" for b b'
          using that by (rule Suc.IH)
        show "b' = b" if "solve n b = Some (Inr (False, b'))" for b b'
          using that by (rule solve_False)
        show "bo ! row ! col = 0"
          using rc by simp
      qed (fact Suc.prems r c d)+
      then show ?thesis
        using Inr Some p by simp
    qed
  qed
qed

lemma wf9_cells_eq:
  assumes a: "wf9 a" and b: "wf9 b"
    and eq: "\<And>p. p \<in> set cells9 \<Longrightarrow> cell_at a p = cell_at b p"
  shows "a = b"
proof (rule nth_equalityI)
  show "length a = length b"
    using a b by (simp add: wf9_def)
  fix i assume "i < length a"
  then have i: "i < 9"
    using a by (simp add: wf9_def)
  show "a ! i = b ! i"
  proof (rule nth_equalityI)
    show "length (a ! i) = length (b ! i)"
      using a b i by (simp add: wf9_nth)
    fix j assume "j < length (a ! i)"
    then have "j < 9"
      using a i by (simp add: wf9_nth)
    then have "(i, j) \<in> set cells9"
      using i by (simp add: cells9_iff)
    then show "a ! i ! j = b ! i ! j"
      using eq[of "(i, j)"] by (simp add: cell_at_def)
  qed
qed

text \<open>The solver finds the completion of a board that has one, and only this one.\<close>

lemma solve_finds_completion:
  assumes wf: "wf9 bo" and c: "completion bo s" and n: "empties bo < n"
  shows "\<exists>bo'. solve n bo = Some (Inr (True, bo')) \<and> completion bo bo' \<and>
    find_empty bo' = Inr None"
proof -
  obtain res bo' where s: "solve n bo = Some (Inr (res, bo'))"
    using solve_returns[OF wf n] by blast
  have res: "res"
    using solve_complete[OF wf c, of n bo'] s by (cases res) simp_all
  then have t: "solve n bo = Some (Inr (True, bo'))"
    using s by simp
  have full: "find_empty bo' = Inr None"
    using t by (rule solve_True)
  have "sound_board bo'"
    using completion_sound_board[OF wf c] t by (rule solve_sound)
  then have "solution bo'"
    using full by (rule sound_full_solution)
  then have "completion bo bo'"
    using wf solve_keeps_givens[OF t] by (intro keeps_givens_completion)
  with t full show ?thesis
    by blast
qed

lemma one_empty_board_unique:
  assumes c: "completion one_empty_board t"
  shows "t = solved_board"
proof -
  have wt: "wf9 t"
    and rng: "\<And>p. p \<in> set cells9 \<Longrightarrow> 1 \<le> cell_at t p \<and> cell_at t p \<le> 9"
    and dist: "\<And>p q. p \<in> set cells9 \<Longrightarrow> q \<in> set cells9 \<Longrightarrow> p \<noteq> q \<Longrightarrow> same_unit p q \<Longrightarrow>
      cell_at t p \<noteq> cell_at t q"
    and agree: "\<And>p. p \<in> set cells9 \<Longrightarrow> cell_at one_empty_board p \<noteq> 0 \<Longrightarrow>
      cell_at t p = cell_at one_empty_board p"
    using c unfolding completion_def solution_def by blast+
  have ws: "wf9 solved_board"
    by code_simp
  have given: "\<forall>p\<in>set cells9. p \<noteq> (0, 0) \<longrightarrow>
      cell_at one_empty_board p \<noteq> 0 \<and> cell_at one_empty_board p = cell_at solved_board p"
    by code_simp
  have same: "cell_at t p = cell_at solved_board p" if "p \<in> set cells9" "p \<noteq> (0, 0)" for p
    using agree[OF that(1)] given that by auto
  have row0: "map (\<lambda>j. cell_at solved_board (0, j)) [1..<9] = [3, 4, 6, 7, 8, 9, 1, 2]"
    by code_simp
  have ne: "cell_at t (0, 0) \<noteq> cell_at solved_board (0, j)" if "j \<in> set [1..<9]" for j
  proof -
    have j: "(0, j) \<in> set cells9" "(0, 0) \<noteq> (0, j)" "same_unit (0, 0) (0, j)"
      using that by (simp_all add: cells9_iff same_unit_def)
    have "(0, 0) \<in> set cells9"
      by (simp add: cells9_iff)
    then have "cell_at t (0, 0) \<noteq> cell_at t (0, j)"
      using j by (intro dist)
    then show ?thesis
      using same[of "(0, j)"] j by simp
  qed
  have "cell_at t (0, 0) \<notin> set (map (\<lambda>j. cell_at solved_board (0, j)) [1..<9])"
  proof
    assume "cell_at t (0, 0) \<in> set (map (\<lambda>j. cell_at solved_board (0, j)) [1..<9])"
    then obtain j where "j \<in> set [1..<9]" "cell_at t (0, 0) = cell_at solved_board (0, j)"
      unfolding set_map by blast
    then show False
      using ne by blast
  qed
  then have "cell_at t (0, 0) \<notin> set [3, 4, 6, 7, 8, 9, 1, 2]"
    unfolding row0 .
  moreover have "1 \<le> cell_at t (0, 0) \<and> cell_at t (0, 0) \<le> 9"
    by (rule rng) (simp add: cells9_iff)
  ultimately have "cell_at t (0, 0) = 5"
    by simp
  moreover have "cell_at solved_board (0, 0) = 5"
    by code_simp
  ultimately have "cell_at t p = cell_at solved_board p" if "p \<in> set cells9" for p
    using same[OF that] by (cases "p = (0, 0)") simp_all
  with wt ws show ?thesis
    by (rule wf9_cells_eq)
qed

text \<open>
  Claim C3. On a 9x9 board that has exactly one completion, the silent solver returns true
  with the matrix equal to this completion, for every amount of fuel above the number of empty
  cells. Solving the solved matrix again returns true with the matrix unchanged, from a single
  call: one unit of fuel is enough, as is any larger amount.
\<close>

theorem solve_unique_completion:
  assumes "wf9 bo" and "completion bo s" and "\<forall>t. completion bo t \<longrightarrow> t = s"
    and "empties bo < n"
  shows "solve n bo = Some (Inr (True, s)) \<and> solve (Suc m) s = Some (Inr (True, s))"
proof -
  obtain bo' where t: "solve n bo = Some (Inr (True, bo'))" and c: "completion bo bo'"
    and full: "find_empty bo' = Inr None"
    using solve_finds_completion[OF assms(1,2,4)] by blast
  have "bo' = s"
    using assms(3) c by blast
  then show ?thesis
    using t full by simp
qed

theorem solve_unique_completion_witness:
  "wf9 one_empty_board \<and> completion one_empty_board solved_board \<and>
   empties one_empty_board < 2 \<and>
   solve 2 one_empty_board = Some (Inr (True, solved_board)) \<and>
   solve (Suc 0) solved_board = Some (Inr (True, solved_board))"
proof -
  have w: "wf9 one_empty_board"
    by code_simp
  have c: "completion one_empty_board solved_board"
    by code_simp
  have u: "\<forall>t. completion one_empty_board t \<longrightarrow> t = solved_board"
    using one_empty_board_unique by blast
  have e: "empties one_empty_board < 2"
    by code_simp
  show ?thesis
    using solve_unique_completion [OF w c u e, of 0] w c e by simp
qed

section \<open>Boards with conflicting givens\<close>

lemma conflicting_givens_kept:
  assumes wf: "wf9 bo" and k: "keeps_givens bo bo'" and c: "conflicting_givens bo"
  shows "conflicting_givens bo'"
proof -
  obtain p q where pq: "p \<in> set cells9" "q \<in> set cells9" "p \<noteq> q" "same_unit p q"
    and nz: "cell_at bo p \<noteq> 0" and eq: "cell_at bo p = cell_at bo q"
    using c unfolding conflicting_givens_def by blast
  have same: "cell_at bo' x = cell_at bo x" if "x \<in> set cells9" "cell_at bo x \<noteq> 0" for x
  proof -
    have "fst x < length bo" "snd x < length (bo ! fst x)"
      using that(1) wf by (simp_all add: cells9_iff wf9_def)
    then show ?thesis
      using k that(2) by (simp add: keeps_givens_def cell_at_def)
  qed
  have "cell_at bo' p \<noteq> 0" "cell_at bo' p = cell_at bo' q"
    using same[OF pq(1) nz] same[OF pq(2)] nz eq by simp_all
  then show ?thesis
    using pq unfolding conflicting_givens_def by blast
qed

lemma conflicting_givens_not_solution: "conflicting_givens bo \<Longrightarrow> \<not> solution bo"
  unfolding conflicting_givens_def solution_def by blast

text \<open>
  Claim C4, as stated, fails: the solver never compares the givens with each other, and on
  the board \<open>conflict_board\<close>, whose first row holds two 5s, it fills the last cell and
  returns true.
\<close>

theorem solve_conflicting_givens_counterexample:
  "wf9 conflict_board \<and> conflicting_givens conflict_board \<and>
   solve 2 conflict_board = Some (Inr (True, conflict_board_filled))"
proof -
  have "wf9 conflict_board"
    by code_simp
  moreover have "conflicting_givens conflict_board"
    unfolding conflicting_givens_def
    by (rule bexI[of _ "(0, 0)"], rule bexI[of _ "(0, 1)"])
      (simp_all add: cells9_iff same_unit_def cell_at_def conflict_board_def)
  moreover have "solve 2 conflict_board = Some (Inr (True, conflict_board_filled))"
    by code_simp
  ultimately show ?thesis
    by simp
qed

text \<open>
  Claim C4, amended. On a 9x9 board whose givens conflict the solver returns a boolean. When
  it returns false, every cell has its value from before the call. When it returns true, every
  given is still in place, the conflicting ones with them, so the filled matrix is not a
  solution.
\<close>

theorem solve_conflicting_givens:
  assumes "wf9 bo" and "conflicting_givens bo" and "empties bo < n"
  shows "\<exists>res bo'. solve n bo = Some (Inr (res, bo')) \<and>
    (if res then keeps_givens bo bo' \<and> conflicting_givens bo' \<and> \<not> solution bo' else bo' = bo)"
proof -
  obtain res bo' where s: "solve n bo = Some (Inr (res, bo'))"
    using solve_returns[OF assms(1,3)] by blast
  show ?thesis
  proof (cases res)
    case True
    have k: "keeps_givens bo bo'"
      using s by (rule solve_keeps_givens)
    have c: "conflicting_givens bo'"
      using assms(1) k assms(2) by (rule conflicting_givens_kept)
    then have "\<not> solution bo'"
      by (rule conflicting_givens_not_solution)
    with k c have "if res then keeps_givens bo bo' \<and> conflicting_givens bo' \<and> \<not> solution bo'
        else bo' = bo"
      using True by simp
    with s show ?thesis
      by blast
  next
    case False
    then have "solve n bo = Some (Inr (False, bo'))"
      using s by simp
    then have "bo' = bo"
      by (rule solve_False)
    then have "if res then keeps_givens bo bo' \<and> conflicting_givens bo' \<and> \<not> solution bo'
        else bo' = bo"
      using False by simp
    with s show ?thesis
      by blast
  qed
qed

theorem solve_conflicting_givens_witness:
  "wf9 dead_end_board \<and> conflicting_givens dead_end_board \<and> empties dead_end_board < 3 \<and>
   (\<exists>res bo'. solve 3 dead_end_board = Some (Inr (res, bo')) \<and>
      (if res then keeps_givens dead_end_board bo' \<and> conflicting_givens bo' \<and> \<not> solution bo'
       else bo' = dead_end_board))"
proof -
  have w: "wf9 dead_end_board"
    by code_simp
  have c: "conflicting_givens dead_end_board"
    unfolding conflicting_givens_def
    by (rule bexI[of _ "(7, 5)"], rule bexI[of _ "(7, 7)"])
      (simp_all add: cells9_iff same_unit_def cell_at_def dead_end_board_def)
  have e: "empties dead_end_board < 3"
    by code_simp
  show ?thesis
    using solve_conflicting_givens [OF w c e] w c e by blast
qed

section \<open>Placement\<close>

lemma on_cube_Inr_iff:
  "on_cube f row col g = Inr g1 \<longleftrightarrow>
     row < length (grid_cubes g) \<and> col < length (grid_cubes g ! row) \<and>
     g1 = g\<lparr>grid_cubes := (grid_cubes g)
            [row := (grid_cubes g ! row)[col := f (grid_cubes g ! row ! col)]]\<rparr>"
  by (auto simp: on_cube_def getitem2_def getitem_def setitem2_def split: sum.splits if_splits)

lemma model_row_Inr:
  "model_row cs i js = Inr vs \<Longrightarrow> vs = map (\<lambda>j. cube_value (cs ! i ! j)) js"
  by (induction js arbitrary: vs) (auto simp: getitem2_Inr_iff split: sum.splits)

lemma model_rows_Inr:
  "model_rows cs is js = Inr m \<Longrightarrow> m = map (\<lambda>i. map (\<lambda>j. cube_value (cs ! i ! j)) js) is"
  by (induction "is" arbitrary: m) (auto dest: model_row_Inr split: sum.splits)

lemma update_model_Inr: "update_model g = Inr g2 \<Longrightarrow> g2 = g\<lparr>grid_model := cube_values g\<rparr>"
  by (auto simp: update_model_def cube_values_def dest: model_rows_Inr split: sum.splits)

text \<open>The \<^verbatim>\<open>else\<close> branch reports false, empties the cube and its mark and rebuilds the matrix.\<close>

lemma place_else_Inr:
  assumes "place_else row col g = Inr (res, g')"
  shows "res = Some False \<and> row < length (grid_cubes g) \<and> col < length (grid_cubes g ! row) \<and>
    grid_cubes g' = (grid_cubes g)
      [row := (grid_cubes g ! row)[col := (grid_cubes g ! row ! col)\<lparr>cube_value := 0, cube_temp := 0\<rparr>]] \<and>
    grid_model g' = cube_values g' \<and> grid_rows g' = grid_rows g \<and> grid_cols g' = grid_cols g \<and>
    grid_selected g' = grid_selected g"
proof -
  from assms obtain g1 g2 where g1: "on_cube (cube_set 0) row col g = Inr g1"
    and g2: "on_cube (set_temp 0) row col g1 = Inr g2"
    and g3: "update_model g2 = Inr g'" and res: "res = Some False"
    by (auto simp: place_else_def split: sum.splits)
  have r: "row < length (grid_cubes g)" "col < length (grid_cubes g ! row)"
    using g1 by (simp_all add: on_cube_Inr_iff)
  have c1: "grid_cubes g1 = (grid_cubes g)
      [row := (grid_cubes g ! row)[col := cube_set 0 (grid_cubes g ! row ! col)]]"
    and f1: "grid_rows g1 = grid_rows g" "grid_cols g1 = grid_cols g"
      "grid_selected g1 = grid_selected g"
    using g1 by (simp_all add: on_cube_Inr_iff)
  have c2: "grid_cubes g2 = (grid_cubes g1)
      [row := (grid_cubes g1 ! row)[col := set_temp 0 (grid_cubes g1 ! row ! col)]]"
    and f2: "grid_rows g2 = grid_rows g1" "grid_cols g2 = grid_cols g1"
      "grid_selected g2 = grid_selected g1"
    using g2 by (simp_all add: on_cube_Inr_iff)
  have g': "g' = g2\<lparr>grid_model := cube_values g2\<rparr>"
    using g3 by (rule update_model_Inr)
  have "grid_cubes g' = (grid_cubes g)
      [row := (grid_cubes g ! row)[col := (grid_cubes g ! row ! col)\<lparr>cube_value := 0, cube_temp := 0\<rparr>]]"
    using r by (simp add: g' c2 c1 cube_set_def set_temp_def)
  moreover have "grid_model g' = cube_values g'"
    by (simp add: g' cube_values_def)
  ultimately show ?thesis
    using res r f1 f2 by (simp add: g')
qed

text \<open>The paths of \<^verbatim>\<open>place\<close> by its result.\<close>

lemma place_True:
  assumes "place n g val = Some (Inr (Some True, g'))" and "grid_selected g = Some (row, col)"
  obtains g1 m where "row < length (grid_cubes g)" "col < length (grid_cubes g ! row)"
    "cube_value (grid_cubes g ! row ! col) = 0"
    "g1 = g\<lparr>grid_cubes := (grid_cubes g)
        [row := (grid_cubes g ! row)[col := cube_set val (grid_cubes g ! row ! col)]]\<rparr>"
    "valid (cube_values g1) val (row, col) = Inr True"
    "solve n (cube_values g1) = Some (Inr (True, m))"
    "g' = g1\<lparr>grid_model := m\<rparr>"
proof -
  from assms obtain c g1 g2 ok where c: "getitem2 (grid_cubes g) row col = Inr c"
    and z: "cube_value c = 0"
    and g1: "on_cube (cube_set val) row col g = Inr g1"
    and g2: "update_model g1 = Inr g2"
    and v: "valid (grid_model g2) val (row, col) = Inr ok"
    and rest: "(if ok then
        (case solve n (grid_model g2) of
           None \<Rightarrow> None
         | Some (Inl e) \<Rightarrow> Some (Inl e)
         | Some (Inr (solved, m)) \<Rightarrow>
             if solved then Some (Inr (Some True, g2\<lparr>grid_model := m\<rparr>))
             else Some (place_else row col (g2\<lparr>grid_model := m\<rparr>)))
        else Some (place_else row col g2)) = Some (Inr (Some True, g'))"
    by (auto simp: place_def split: sum.splits if_splits)
  have ne: "place_else row col x \<noteq> Inr (Some True, g')" for x
    using place_else_Inr[of row col x "Some True" g'] by auto
  have ok: "ok"
    using rest ne by (cases ok) auto
  from rest ok ne obtain m where s: "solve n (grid_model g2) = Some (Inr (True, m))"
    and g': "g' = g2\<lparr>grid_model := m\<rparr>"
    by (auto split: option.splits sum.splits prod.splits if_splits)
  have g2': "g2 = g1\<lparr>grid_model := cube_values g1\<rparr>"
    using g2 by (rule update_model_Inr)
  have m2: "grid_model g2 = cube_values g1"
    by (simp add: g2')
  show thesis
  proof (rule that[of g1 m])
    show "row < length (grid_cubes g)" "col < length (grid_cubes g ! row)"
      using c by (simp_all add: getitem2_Inr_iff)
    show "cube_value (grid_cubes g ! row ! col) = 0"
      using c z by (simp add: getitem2_Inr_iff)
    show "g1 = g\<lparr>grid_cubes := (grid_cubes g)
        [row := (grid_cubes g ! row)[col := cube_set val (grid_cubes g ! row ! col)]]\<rparr>"
      using g1 by (simp add: on_cube_Inr_iff)
    show "valid (cube_values g1) val (row, col) = Inr True"
      using v ok by (simp add: m2)
    show "solve n (cube_values g1) = Some (Inr (True, m))"
      using s by (simp add: m2)
    show "g' = g1\<lparr>grid_model := m\<rparr>"
      by (simp add: g' g2')
  qed
qed

lemma place_False:
  assumes "place n g val = Some (Inr (Some False, g'))" and "grid_selected g = Some (row, col)"
  obtains g1 m where "row < length (grid_cubes g)" "col < length (grid_cubes g ! row)"
    "cube_value (grid_cubes g ! row ! col) = 0"
    "g1 = g\<lparr>grid_cubes := (grid_cubes g)
        [row := (grid_cubes g ! row)[col := cube_set val (grid_cubes g ! row ! col)]]\<rparr>"
    "place_else row col (g1\<lparr>grid_model := m\<rparr>) = Inr (Some False, g')"
proof -
  from assms obtain c g1 g2 ok where c: "getitem2 (grid_cubes g) row col = Inr c"
    and z: "cube_value c = 0"
    and g1: "on_cube (cube_set val) row col g = Inr g1"
    and g2: "update_model g1 = Inr g2"
    and v: "valid (grid_model g2) val (row, col) = Inr ok"
    and rest: "(if ok then
        (case solve n (grid_model g2) of
           None \<Rightarrow> None
         | Some (Inl e) \<Rightarrow> Some (Inl e)
         | Some (Inr (solved, m)) \<Rightarrow>
             if solved then Some (Inr (Some True, g2\<lparr>grid_model := m\<rparr>))
             else Some (place_else row col (g2\<lparr>grid_model := m\<rparr>)))
        else Some (place_else row col g2)) = Some (Inr (Some False, g'))"
    by (auto simp: place_def split: sum.splits if_splits)
  have g2': "g2 = g1\<lparr>grid_model := cube_values g1\<rparr>"
    using g2 by (rule update_model_Inr)
  from rest obtain m where "place_else row col (g2\<lparr>grid_model := m\<rparr>) = Inr (Some False, g')"
  proof (cases ok)
    case True
    with rest obtain m where "place_else row col (g2\<lparr>grid_model := m\<rparr>) = Inr (Some False, g')"
      by (auto split: option.splits sum.splits prod.splits if_splits)
    then show ?thesis by (rule that)
  next
    case False
    with rest have "place_else row col (g2\<lparr>grid_model := grid_model g2\<rparr>) = Inr (Some False, g')"
      by simp
    then show ?thesis by (rule that)
  qed
  then have pe: "place_else row col (g1\<lparr>grid_model := m\<rparr>) = Inr (Some False, g')"
    by (simp add: g2')
  show thesis
  proof (rule that[of g1 m])
    show "row < length (grid_cubes g)" "col < length (grid_cubes g ! row)"
      using c by (simp_all add: getitem2_Inr_iff)
    show "cube_value (grid_cubes g ! row ! col) = 0"
      using c z by (simp add: getitem2_Inr_iff)
    show "g1 = g\<lparr>grid_cubes := (grid_cubes g)
        [row := (grid_cubes g ! row)[col := cube_set val (grid_cubes g ! row ! col)]]\<rparr>"
      using g1 by (simp add: on_cube_Inr_iff)
    show "place_else row col (g1\<lparr>grid_model := m\<rparr>) = Inr (Some False, g')"
      by (rule pe)
  qed
qed




text \<open>
  Claim C6. When \<^verbatim>\<open>place\<close> returns false, whether \<^verbatim>\<open>valid\<close> or \<^verbatim>\<open>solve\<close> was false,
  the selected cube was empty before the call and is empty after it, its pencil mark is 0, and
  every other cube is as before the call: the cubes after the call are the cubes before it with
  the mark of the selected one set to 0. The size and the selection are unchanged, and the
  matrix is rebuilt from the cubes.
\<close>

theorem place_rejected_reverts:
  assumes "place n g val = Some (Inr (Some False, g'))" and "grid_selected g = Some (row, col)"
  shows "cube_value (grid_cubes g ! row ! col) = 0 \<and>
    grid_cubes g' = (grid_cubes g)
      [row := (grid_cubes g ! row)[col := (grid_cubes g ! row ! col)\<lparr>cube_temp := 0\<rparr>]] \<and>
    cube_value (grid_cubes g' ! row ! col) = 0 \<and> cube_temp (grid_cubes g' ! row ! col) = 0 \<and>
    grid_model g' = cube_values g' \<and> grid_rows g' = grid_rows g \<and> grid_cols g' = grid_cols g \<and>
    grid_selected g' = grid_selected g"
  using assms
proof (cases rule: place_False)
  case (1 g1 m)
  note e = place_else_Inr[OF 1(5)]
  have "(cube_set val (grid_cubes g ! row ! col))\<lparr>cube_value := 0, cube_temp := 0\<rparr> =
      (grid_cubes g ! row ! col)\<lparr>cube_temp := 0\<rparr>"
    using 1(3) by (simp add: cube_set_def)
  then have c: "grid_cubes g' = (grid_cubes g)
      [row := (grid_cubes g ! row)[col := (grid_cubes g ! row ! col)\<lparr>cube_temp := 0\<rparr>]]"
    using e 1(1,2) by (simp add: 1(4))
  have "cube_value (grid_cubes g' ! row ! col) = 0" "cube_temp (grid_cubes g' ! row ! col) = 0"
    using 1(1,2,3) by (simp_all add: c)
  then show ?thesis
    using e c 1(3) by (simp add: 1(4))
qed

theorem place_rejected_reverts_witness:
  "place 3 (picked_grid dead_end_board 0 0 5) 5 =
     Some (Inr (Some False, picked_grid dead_end_board 0 0 0)) \<and>
   grid_selected (picked_grid dead_end_board 0 0 5) = Some (0, 0) \<and>
   cube_value (grid_cubes (picked_grid dead_end_board 0 0 0) ! 0 ! 0) = 0 \<and>
   cube_temp (grid_cubes (picked_grid dead_end_board 0 0 0) ! 0 ! 0) = 0"
proof -
  have p: "place 3 (picked_grid dead_end_board 0 0 5) 5 =
      Some (Inr (Some False, picked_grid dead_end_board 0 0 0))"
    by code_simp
  have s: "grid_selected (picked_grid dead_end_board 0 0 5) = Some (0, 0)"
    by (simp add: picked_grid_def)
  show ?thesis
    using place_rejected_reverts [OF p s] p s by blast
qed

text \<open>
  Claim C7. With a filled cube selected, \<^verbatim>\<open>place\<close> changes nothing, neither a value nor a
  pencil mark nor the matrix, and returns \<^verbatim>\<open>None\<close>: neither true nor false. No fuel is needed,
  the search is not called.
\<close>

theorem place_on_filled_cell_is_noop:
  assumes "grid_selected g = Some (row, col)"
    and "row < length (grid_cubes g)" and "col < length (grid_cubes g ! row)"
    and "cube_value (grid_cubes g ! row ! col) \<noteq> 0"
  shows "place n g val = Some (Inr (None, g))"
  using assms by (simp add: place_def getitem2_Inr)

theorem place_on_filled_cell_is_noop_witness:
  "grid_selected (picked_grid two_empty_board 0 1 7) = Some (0, 1) \<and>
   cube_value (grid_cubes (picked_grid two_empty_board 0 1 7) ! 0 ! 1) = 3 \<and>
   place 0 (picked_grid two_empty_board 0 1 7) 7 =
     Some (Inr (None, picked_grid two_empty_board 0 1 7))"
proof -
  have s: "grid_selected (picked_grid two_empty_board 0 1 7) = Some (0, 1)"
    by (simp add: picked_grid_def)
  have r: "0 < length (grid_cubes (picked_grid two_empty_board 0 1 7))"
    by code_simp
  have c: "1 < length (grid_cubes (picked_grid two_empty_board 0 1 7) ! 0)"
    by code_simp
  have v: "cube_value (grid_cubes (picked_grid two_empty_board 0 1 7) ! 0 ! 1) = 3"
    by code_simp
  then have nz: "cube_value (grid_cubes (picked_grid two_empty_board 0 1 7) ! 0 ! 1) \<noteq> 0"
    by simp
  show ?thesis
    using place_on_filled_cell_is_noop [OF s r c nz, of 0 7] s v by simp
qed

text \<open>
  The branch of \<^verbatim>\<open>place\<close> that returns true writes the value of the selected cube and
  nothing else of it: on every such path the pencil mark is the one from before the call.
\<close>

lemma place_True_temp_unchanged:
  assumes "place n g val = Some (Inr (Some True, g'))" and "grid_selected g = Some (row, col)"
  shows "cube_temp (grid_cubes g' ! row ! col) = cube_temp (grid_cubes g ! row ! col) \<and>
    cube_value (grid_cubes g' ! row ! col) = val"
  using assms
proof (cases rule: place_True)
  case (1 g1 m)
  then show ?thesis
    by (simp add: cube_set_def)
qed

text \<open>
  Claim C8. When \<^verbatim>\<open>place\<close> returns true, the pencil mark of the placed cube is to read 0
  afterwards. The code misses this: its \<^verbatim>\<open>else\<close> branch calls \<^verbatim>\<open>set_temp(0)\<close>, the
  branch that returns true returns without it. On the board with two empty cells, with (0,0)
  selected and 5 sketched, placing the 5 returns true and the mark of the cube is still 5.
  \<^verbatim>\<open>run_game\<close> reads the mark whatever the value of the cube, so the next RETURN calls
  \<^verbatim>\<open>place\<close> with the stale mark on the cube that is now filled: the call returns
  \<^verbatim>\<open>None\<close>, which \<^verbatim>\<open>run_game\<close> takes for a wrong move.
\<close>

theorem place_committed_leaves_temp:
  "place 3 (picked_grid two_empty_board 0 0 5) 5 = Some (Inr (Some True, committed_grid)) \<and>
   cube_temp (grid_cubes committed_grid ! 0 ! 0) = 5 \<and>
   place 3 committed_grid 5 = Some (Inr (None, committed_grid))"
  by code_simp

end
